theory Spec2Isabelle
  imports Complex_Main "HOL-Library.Sublist"
begin

section \<open>Exceptions and outcomes\<close>

text \<open>
  The Python exceptions the modelled code can raise. \<open>EmbedderError\<close> stands for
  whatever the OpenAI client raises when an embedding request fails.
\<close>

datatype py_error =
    ValueError
  | IndexError
  | TypeError
  | OverflowError
  | AssertionError
  | RuntimeError
  | JSONDecodeError
  | FileNotFoundError
  | NotADirectoryError
  | EmbedderError string

text \<open>
  The outcome of running a piece of stateful code from a state: it returns normally with
  the new state, raises with the state as it is at the raise (Python mutates objects in
  place, so what was done before the raise stays done), or never returns.
\<close>

datatype 's outcome = Ok 's | Raise py_error 's | Diverge

fun and_then :: "'s outcome \<Rightarrow> ('s \<Rightarrow> 's outcome) \<Rightarrow> 's outcome" where
  "and_then (Ok s) f = f s"
| "and_then (Raise e s) f = Raise e s"
| "and_then Diverge f = Diverge"

text \<open>A \<open>for x in xs:\<close> loop; a \<open>continue\<close> is a body that returns its state.\<close>

fun for_each :: "('x \<Rightarrow> 's \<Rightarrow> 's outcome) \<Rightarrow> 'x list \<Rightarrow> 's \<Rightarrow> 's outcome" where
  "for_each body [] s = Ok s"
| "for_each body (x # xs) s = and_then (body x s) (for_each body xs)"

text \<open>A property of the state an outcome ends in, whether it returned or raised.\<close>

fun ends_in :: "('s \<Rightarrow> bool) \<Rightarrow> 's outcome \<Rightarrow> bool" where
  "ends_in P (Ok s) = P s"
| "ends_in P (Raise e s) = P s"
| "ends_in P Diverge = False"

text \<open>Python's \<open>xs[i]\<close>: a negative index counts from the end.\<close>

definition py_index :: "'a list \<Rightarrow> int \<Rightarrow> py_error + 'a" where
  "py_index xs i =
     (if 0 \<le> i \<and> i < int (length xs) then Inr (xs ! nat i)
      else if i < 0 \<and> - int (length xs) \<le> i then Inr (xs ! nat (int (length xs) + i))
      else Inl IndexError)"

text \<open>Python's \<open>max(xs)\<close>, which raises on an empty sequence.\<close>

definition py_max :: "int list \<Rightarrow> py_error + int" where
  "py_max xs = (case xs of [] \<Rightarrow> Inl ValueError | x # rest \<Rightarrow> Inr (fold max rest x))"

definition endswith :: "string \<Rightarrow> string \<Rightarrow> bool" where
  "endswith s suf = (length suf \<le> length s \<and> drop (length s - length suf) s = suf)"

section \<open>Chunker (chunk_text in incremental_chunk_embed.py and query_rag.py)\<close>

text \<open>
  The tokenizer is the external tiktoken encoding: its two functions are parameters
  \<open>enc\<close> (\<open>tokenizer.encode\<close>) and \<open>dec\<close> (\<open>tokenizer.decode\<close>) of the model.
  Token ids are natural numbers.
\<close>

type_synonym token = nat

definition CHUNK_SIZE :: int where
  "CHUNK_SIZE = 1000"

definition CHUNK_OVERLAP :: int where
  "CHUNK_OVERLAP = 200"

text \<open>
  Python's \<open>xs[start:end]\<close> for integer bounds: a negative bound counts from the end,
  and both bounds are clamped to the list.
\<close>

definition py_slice :: "'a list \<Rightarrow> int \<Rightarrow> int \<Rightarrow> 'a list" where
  "py_slice xs start end =
     (let n = int (length xs);
          s = (if start < 0 then max (start + n) 0 else min start n);
          e = (if end < 0 then max (end + n) 0 else min end n)
      in take (nat (e - s)) (drop (nat s) xs))"

text \<open>
  The \<open>while start < len(tokens)\<close> loop of \<open>chunk_text\<close>. The loop need not terminate
  (the step \<open>chunk_size - overlap\<close> may be zero or negative), so it lives in the option
  monad: \<open>None\<close> is a run that never returns.
\<close>

partial_function (option) chunk_loop ::
  "(token list \<Rightarrow> string) \<Rightarrow> token list \<Rightarrow> int \<Rightarrow> int \<Rightarrow> int \<Rightarrow> string list \<Rightarrow> string list option"
where
  "chunk_loop dec tokens chunk_size overlap start chunks =
     (if start < int (length tokens) then
        (let end = min (start + chunk_size) (int (length tokens));
             chunks' = chunks @ [dec (py_slice tokens start end)]
         in if end = int (length tokens) then Some chunks'
            else chunk_loop dec tokens chunk_size overlap (start + (chunk_size - overlap)) chunks')
      else Some chunks)"

definition chunk_text ::
  "(string \<Rightarrow> token list) \<Rightarrow> (token list \<Rightarrow> string) \<Rightarrow> string \<Rightarrow> int \<Rightarrow> int \<Rightarrow> string list option"
where
  "chunk_text enc dec text chunk_size overlap = chunk_loop dec (enc text) chunk_size overlap 0 []"

section \<open>Data model\<close>

text \<open>
  A metadata entry is the dictionary built in \<open>update_embeddings\<close> and stored in
  \<open>faiss_metadata.json\<close>; \<open>accession\<close> and \<open>form\<close> come from \<open>record.get\<close>
  and may be \<open>None\<close>.
\<close>

record entry =
  entry_id :: int
  ticker :: string
  accession :: "string option"
  chunk_index :: int
  filing_date :: string
  form :: "string option"

type_synonym chunk_key = "string \<times> string option \<times> int"

definition key_of :: "entry \<Rightarrow> chunk_key" where
  "key_of m = (ticker m, accession m, chunk_index m)"

text \<open>
  A filing record as read from \<open>data/<ticker>/<file>.json\<close>, with the defaults of
  \<open>record.get\<close> applied (\<open>filing_date\<close> and \<open>text\<close> default to the empty string).
\<close>

record filing =
  rec_accession :: "string option"
  rec_filing_date :: string
  rec_text :: string
  rec_form :: "string option"
  rec_url :: "string option"
  rec_cik :: "string option"

text \<open>
  The corpus directory \<open>data/\<close>: its listing in the order \<open>os.listdir\<close> returns it,
  each name with what it is. A name in \<open>data/\<close> is a plain file or a directory; a file
  in a ticker directory holds a JSON filing record or content \<open>json.load\<close> fails on.
\<close>

datatype file_content = Malformed | Filing filing

datatype dir_entry = File | Dir "(string \<times> file_content) list"

type_synonym corpus = "(string \<times> dir_entry) list"

text \<open>
  Embedding vectors are lists of floats, idealised as reals. The FAISS index is
  \<open>IndexIDMap(IndexFlatIP(dims))\<close>: its dimension and the stored rows with their ids, in
  insertion order.
\<close>

type_synonym vec = "real list"

record faiss_index =
  index_d :: nat
  index_rows :: "(int \<times> vec) list"

definition build_empty_faiss :: "nat \<Rightarrow> faiss_index" where
  "build_empty_faiss dims = \<lparr>index_d = dims, index_rows = []\<rparr>"

text \<open>
  The two persisted artifacts, \<open>faiss_index.idx\<close> and \<open>faiss_metadata.json\<close>;
  \<open>None\<close> is a file that does not exist.
\<close>

record store_files =
  index_file :: "faiss_index option"
  metadata_file :: "entry list option"

text \<open>
  The embedding service is external. It is a parameter: given the number of calls made
  before and the batch of texts, it returns the vectors or fails.
\<close>

type_synonym embedder = "nat \<Rightarrow> string list \<Rightarrow> py_error + vec list"

definition BATCH_SIZE :: nat where
  "BATCH_SIZE = 100"

text \<open>\<open>MAX_CHUNKS_IN_MEMORY\<close> and \<open>SAVE_PROGRESS_EVERY\<close> are read from the environment.\<close>

record config =
  MAX_CHUNKS_IN_MEMORY :: int
  SAVE_PROGRESS_EVERY :: int

text \<open>
  The variables of \<open>update_embeddings\<close>, with the store files and the number of
  embedding calls made so far.
\<close>

record builder =
  index :: "faiss_index option"
  metadata :: "entry list"
  next_id :: int
  current_chunks :: "string list"
  current_entries :: "entry list"
  total_new_chunks :: int
  processed_chunks :: int
  files :: store_files
  embed_calls :: nat

section \<open>Vector store (incremental_chunk_embed.py)\<close>

definition initialize_index ::
  "store_files \<Rightarrow> py_error + (faiss_index option \<times> entry list \<times> chunk_key set \<times> int)"
where
  "initialize_index fs =
     (case (metadata_file fs, index_file fs) of
        (Some md, Some ix) \<Rightarrow>
          (case py_max (map entry_id md) of
             Inl e \<Rightarrow> Inl e
           | Inr m \<Rightarrow> Inr (Some ix, md, set (map key_of md), m + 1))
      | _ \<Rightarrow> Inr (None, [], {}, 0))"

text \<open>
  \<open>save_index_metadata\<close> is two writes in sequence: \<open>faiss.write_index\<close> to the index
  file, then \<open>json.dump\<close> to the metadata file, each in place. The file system is
  taken to accept both writes: an \<open>OSError\<close> while a file is being written is not
  modelled, so here a persist raises only when there is no index to write. What is proved
  below about the files is therefore about persists that completed and runs that returned;
  nothing is claimed about the files a write that failed half-way leaves behind.
\<close>

definition write_index :: "builder \<Rightarrow> builder outcome" where
  "write_index s =
     (case index s of
        None \<Rightarrow> Raise TypeError s
      | Some ix \<Rightarrow> Ok (s\<lparr>files := (files s)\<lparr>index_file := Some ix\<rparr>\<rparr>))"

definition write_metadata :: "builder \<Rightarrow> builder outcome" where
  "write_metadata s = Ok (s\<lparr>files := (files s)\<lparr>metadata_file := Some (metadata s)\<rparr>\<rparr>)"

definition save_index_metadata :: "builder \<Rightarrow> builder outcome" where
  "save_index_metadata s = and_then (write_index s) write_metadata"

text \<open>
  The sub-batch loop of \<open>process_chunk_batch\<close>: one embedding call for each
  \<open>BATCH_SIZE\<close> texts, the vectors appended in order. It returns the number of calls
  made as well.
\<close>

function embed_sub_batches ::
  "embedder \<Rightarrow> nat \<Rightarrow> string list \<Rightarrow> vec list \<Rightarrow> (py_error + vec list) \<times> nat"
where
  "embed_sub_batches embed_texts calls rest batch_embeddings =
     (if rest = [] then (Inr batch_embeddings, calls)
      else (case embed_texts calls (take BATCH_SIZE rest) of
              Inl e \<Rightarrow> (Inl e, Suc calls)
            | Inr vs \<Rightarrow>
                embed_sub_batches embed_texts (Suc calls) (drop BATCH_SIZE rest) (batch_embeddings @ vs)))"
  by pat_completeness auto
termination
  by (relation "measure (\<lambda>(embed_texts, calls, rest, acc). length rest)") (auto simp: BATCH_SIZE_def)

declare embed_sub_batches.simps [simp del]

definition in_int64 :: "int \<Rightarrow> bool" where
  "in_int64 i = (- (2 ^ 63) \<le> i \<and> i < 2 ^ 63)"

text \<open>
  \<open>index.add_with_ids(arr, ids)\<close> on an array of \<open>n\<close> rows of width \<open>dims\<close>: the
  Python wrapper asserts the width and the number of ids before anything is added.
\<close>

definition add_with_ids :: "faiss_index \<Rightarrow> nat \<Rightarrow> vec list \<Rightarrow> int list \<Rightarrow> py_error + faiss_index" where
  "add_with_ids ix dims arr ids =
     (if dims \<noteq> index_d ix then Inl AssertionError
      else if length ids \<noteq> length arr then Inl AssertionError
      else Inr (ix\<lparr>index_rows := index_rows ix @ zip ids arr\<rparr>))"

text \<open>
  \<open>process_chunk_batch\<close>, on the builder's \<open>index\<close> and \<open>metadata\<close> (its callers pass
  these and rebind them to the returned pair). \<open>nrm\<close> is \<open>faiss.normalize_L2\<close> on a row.
\<close>

definition process_chunk_batch ::
  "embedder \<Rightarrow> (vec \<Rightarrow> vec) \<Rightarrow> string list \<Rightarrow> entry list \<Rightarrow> builder \<Rightarrow> builder outcome"
where
  "process_chunk_batch embed_texts nrm chunks_batch entries_batch s =
     (if chunks_batch = [] then Ok s
      else (case embed_sub_batches embed_texts (embed_calls s) chunks_batch [] of
              (Inl e, calls) \<Rightarrow> Raise e (s\<lparr>embed_calls := calls\<rparr>)
            | (Inr batch_embeddings, calls) \<Rightarrow>
                (let s1 = s\<lparr>embed_calls := calls\<rparr> in
                 case batch_embeddings of
                   [] \<Rightarrow> Raise IndexError s1
                 | v0 # _ \<Rightarrow>
                     (let dims = length v0;
                          index1 = (case index s1 of None \<Rightarrow> build_empty_faiss dims | Some ix \<Rightarrow> ix)
                      in if \<not> list_all (\<lambda>v. length v = dims) batch_embeddings then Raise ValueError s1
                         else (let arr = map nrm batch_embeddings;
                                   ids = map entry_id entries_batch
                               in if \<not> list_all in_int64 ids then Raise OverflowError s1
                                  else (case add_with_ids index1 dims arr ids of
                                          Inl e \<Rightarrow> Raise e s1
                                        | Inr index2 \<Rightarrow>
                                            Ok (s1\<lparr>index := Some index2,
                                                   metadata := metadata s1 @ entries_batch\<rparr>)))))))"

section \<open>Incremental builder (update_embeddings)\<close>

text \<open>The body of the loop over the chunks of one filing.\<close>

definition stage_chunk ::
  "config \<Rightarrow> embedder \<Rightarrow> (vec \<Rightarrow> vec) \<Rightarrow> chunk_key set \<Rightarrow> string \<Rightarrow> filing \<Rightarrow>
   nat \<times> string \<Rightarrow> builder \<Rightarrow> builder outcome"
where
  "stage_chunk cfg embed_texts nrm existing_keys tk record ic s =
     (case ic of (idx, chunk) \<Rightarrow>
        if (tk, rec_accession record, int idx) \<in> existing_keys then Ok s
        else
          (let s1 = s\<lparr>current_chunks := current_chunks s @ [chunk],
                       current_entries := current_entries s @
                         [\<lparr>entry_id = next_id s, ticker = tk, accession = rec_accession record,
                           chunk_index = int idx, filing_date = rec_filing_date record,
                           form = rec_form record\<rparr>],
                       next_id := next_id s + 1,
                       total_new_chunks := total_new_chunks s + 1\<rparr>
           in if MAX_CHUNKS_IN_MEMORY cfg \<le> int (length (current_chunks s1)) then
                and_then (process_chunk_batch embed_texts nrm (current_chunks s1) (current_entries s1) s1)
                  (\<lambda>s2.
                     let s3 = s2\<lparr>processed_chunks :=
                                    processed_chunks s2 + int (length (current_chunks s2)),
                                  current_chunks := [], current_entries := []\<rparr>
                     in if SAVE_PROGRESS_EVERY cfg \<le> processed_chunks s3 then
                          and_then (save_index_metadata s3) (\<lambda>s4. Ok (s4\<lparr>processed_chunks := 0\<rparr>))
                        else Ok s3)
              else Ok s1))"

text \<open>The body of the loop over the files of one ticker directory.\<close>

definition process_file ::
  "config \<Rightarrow> embedder \<Rightarrow> (vec \<Rightarrow> vec) \<Rightarrow> (string \<Rightarrow> token list) \<Rightarrow> (token list \<Rightarrow> string) \<Rightarrow>
   chunk_key set \<Rightarrow> string \<Rightarrow> string \<times> file_content \<Rightarrow> builder \<Rightarrow> builder outcome"
where
  "process_file cfg embed_texts nrm enc dec existing_keys tk f s =
     (case f of (fname, content) \<Rightarrow>
        if \<not> endswith fname ''.json'' then Ok s
        else (case content of
                Malformed \<Rightarrow> Raise JSONDecodeError s
              | Filing record \<Rightarrow>
                  (case chunk_text enc dec (rec_text record) CHUNK_SIZE CHUNK_OVERLAP of
                     None \<Rightarrow> Diverge
                   | Some chunks \<Rightarrow>
                       for_each (stage_chunk cfg embed_texts nrm existing_keys tk record)
                         (enumerate 0 chunks) s)))"

text \<open>The body of the loop over the names in \<open>data/\<close>.\<close>

definition process_ticker ::
  "config \<Rightarrow> embedder \<Rightarrow> (vec \<Rightarrow> vec) \<Rightarrow> (string \<Rightarrow> token list) \<Rightarrow> (token list \<Rightarrow> string) \<Rightarrow>
   chunk_key set \<Rightarrow> string \<times> dir_entry \<Rightarrow> builder \<Rightarrow> builder outcome"
where
  "process_ticker cfg embed_texts nrm enc dec existing_keys t s =
     (case t of (tk, node) \<Rightarrow>
        (case node of
           File \<Rightarrow> Ok s
         | Dir fs \<Rightarrow> for_each (process_file cfg embed_texts nrm enc dec existing_keys tk) fs s))"

text \<open>The flush of what is left after the traversal, and the final save.\<close>

definition flush_remaining :: "embedder \<Rightarrow> (vec \<Rightarrow> vec) \<Rightarrow> builder \<Rightarrow> builder outcome" where
  "flush_remaining embed_texts nrm s =
     (if current_chunks s \<noteq> [] then
        and_then (process_chunk_batch embed_texts nrm (current_chunks s) (current_entries s) s)
          (\<lambda>s2. Ok (s2\<lparr>processed_chunks := processed_chunks s2 + int (length (current_chunks s2))\<rparr>))
      else Ok s)"

definition final_save :: "builder \<Rightarrow> builder outcome" where
  "final_save s = (if total_new_chunks s = 0 then Ok s else save_index_metadata s)"

definition start_state ::
  "faiss_index option \<Rightarrow> entry list \<Rightarrow> int \<Rightarrow> store_files \<Rightarrow> nat \<Rightarrow> builder"
where
  "start_state ix md nid fs calls =
     \<lparr>index = ix, metadata = md, next_id = nid, current_chunks = [], current_entries = [],
      total_new_chunks = 0, processed_chunks = 0, files = fs, embed_calls = calls\<rparr>"

text \<open>
  \<open>update_embeddings\<close>, run on a corpus from the store files \<open>fs\<close> after \<open>calls\<close>
  embedding calls. When \<open>initialize_index\<close> raises, nothing has been loaded.
\<close>

definition update_embeddings ::
  "config \<Rightarrow> embedder \<Rightarrow> (vec \<Rightarrow> vec) \<Rightarrow> (string \<Rightarrow> token list) \<Rightarrow> (token list \<Rightarrow> string) \<Rightarrow>
   corpus \<Rightarrow> store_files \<Rightarrow> nat \<Rightarrow> builder outcome"
where
  "update_embeddings cfg embed_texts nrm enc dec data_dir fs calls =
     (case initialize_index fs of
        Inl e \<Rightarrow> Raise e (start_state None [] 0 fs calls)
      | Inr (ix, md, existing_keys, nid) \<Rightarrow>
          and_then
            (and_then
               (for_each (process_ticker cfg embed_texts nrm enc dec existing_keys) data_dir
                  (start_state ix md nid fs calls))
               (flush_remaining embed_texts nrm))
            final_save)"

section \<open>Retriever (retrieve in query_rag.py)\<close>

text \<open>
  A result of \<open>retrieve\<close>: the copied metadata entry (its \<open>form\<close> replaced by the
  record's) with the score, the chunk text, the url and the cik added.
\<close>

record hit =
  hit_entry :: entry
  hit_score :: real
  hit_text :: string
  hit_url :: "string option"
  hit_cik :: "string option"

text \<open>The list \<open>hits\<close> of \<open>retrieve\<close>, and the warnings it has logged.\<close>

record retrieval =
  hits :: "hit list"
  warnings :: "string list"

text \<open>The file name \<open>f"{entry['accession']}.json"\<close>.\<close>

definition json_name :: "string option \<Rightarrow> string" where
  "json_name acc = (case acc of None \<Rightarrow> ''None'' | Some a \<Rightarrow> a) @ ''.json''"

text \<open>
  \<open>open\<close> and \<open>json.load\<close> on \<open>data/<ticker>/<name>\<close>; names are taken as single
  path components.
\<close>

definition open_record :: "corpus \<Rightarrow> string \<Rightarrow> string \<Rightarrow> py_error + filing" where
  "open_record data_dir tk fname =
     (case map_of data_dir tk of
        None \<Rightarrow> Inl FileNotFoundError
      | Some File \<Rightarrow> Inl NotADirectoryError
      | Some (Dir fs) \<Rightarrow>
          (case map_of fs fname of
             None \<Rightarrow> Inl FileNotFoundError
           | Some Malformed \<Rightarrow> Inl JSONDecodeError
           | Some (Filing record) \<Rightarrow> Inr record))"

definition missing_file_warning :: "entry \<Rightarrow> string" where
  "missing_file_warning m =
     ''Missing file for '' @ ticker m @ ''/'' @ json_name (accession m) @ '' - skipping this hit.''"

text \<open>The body of the loop of \<open>retrieve\<close> after the entry has been copied.\<close>

definition rehydrate_hit ::
  "(string \<Rightarrow> token list) \<Rightarrow> (token list \<Rightarrow> string) \<Rightarrow> corpus \<Rightarrow> entry \<Rightarrow> real \<Rightarrow>
   retrieval \<Rightarrow> retrieval outcome"
where
  "rehydrate_hit enc dec data_dir m sc st =
     (case open_record data_dir (ticker m) (json_name (accession m)) of
        Inl e \<Rightarrow>
          if e = FileNotFoundError
          then Ok (st\<lparr>warnings := warnings st @ [missing_file_warning m]\<rparr>)
          else Raise e st
      | Inr record \<Rightarrow>
          (case chunk_text enc dec (rec_text record) CHUNK_SIZE CHUNK_OVERLAP of
             None \<Rightarrow> Diverge
           | Some chunks \<Rightarrow>
               (case py_index chunks (chunk_index m) of
                  Inl e \<Rightarrow> Raise e st
                | Inr t \<Rightarrow>
                    Ok (st\<lparr>hits := hits st @
                          [\<lparr>hit_entry = m\<lparr>form := rec_form record\<rparr>, hit_score = sc, hit_text = t,
                            hit_url = rec_url record, hit_cik = rec_cik record\<rparr>]\<rparr>))))"

text \<open>
  The body of the loop over the search results, each id with the distance at its rank.
\<close>

definition retrieve_hit ::
  "(string \<Rightarrow> token list) \<Rightarrow> (token list \<Rightarrow> string) \<Rightarrow> corpus \<Rightarrow> entry list \<Rightarrow>
   real \<times> int \<Rightarrow> retrieval \<Rightarrow> retrieval outcome"
where
  "retrieve_hit enc dec data_dir md r st =
     (case r of (sc, vid) \<Rightarrow>
        if vid < 0 \<or> int (length md) \<le> vid then Ok st
        else (case py_index md vid of
                Inl e \<Rightarrow> Raise e st
              | Inr m \<Rightarrow> rehydrate_hit enc dec data_dir m sc st))"


section \<open>Sample data\<close>

text \<open>
  A small tokenizer used to run the model on concrete inputs: one token for each
  character, the token being the character's code.
\<close>

definition char_enc :: "string \<Rightarrow> token list" where
  "char_enc s = map of_char s"

definition char_dec :: "token list \<Rightarrow> string" where
  "char_dec ts = map char_of ts"

text \<open>
  A corpus of one ticker directory with two filings of one chunk each, the metadata
  entries and index the builder makes of them, an embedder that always answers, one that
  fails from its second call on, and a configuration that flushes and saves after every
  chunk.
\<close>

definition sample_filing :: "string \<Rightarrow> string \<Rightarrow> filing" where
  "sample_filing acc txt =
     \<lparr>rec_accession = Some acc, rec_filing_date = ''2024-02-01'', rec_text = txt,
      rec_form = Some ''10-K'', rec_url = None, rec_cik = None\<rparr>"

definition sample_corpus :: corpus where
  "sample_corpus =
     [(''AAPL'', Dir [(''A1.json'', Filing (sample_filing ''A1'' ''alpha'')),
                      (''A2.json'', Filing (sample_filing ''A2'' ''beta''))])]"

definition sample_entry :: "int \<Rightarrow> string \<Rightarrow> entry" where
  "sample_entry i acc =
     \<lparr>entry_id = i, ticker = ''AAPL'', accession = Some acc, chunk_index = 0,
      filing_date = ''2024-02-01'', form = Some ''10-K''\<rparr>"

definition sample_index :: "int list \<Rightarrow> faiss_index" where
  "sample_index ids = \<lparr>index_d = 2, index_rows = map (\<lambda>i. (i, [1, 0])) ids\<rparr>"

definition unit_embedder :: embedder where
  "unit_embedder calls texts = Inr (map (\<lambda>t. [1, 0]) texts)"

definition flaky_embedder :: embedder where
  "flaky_embedder calls texts =
     (if calls = 0 then Inr (map (\<lambda>t. [1, 0]) texts) else Inl (EmbedderError ''timeout''))"

definition eager_config :: config where
  "eager_config = \<lparr>MAX_CHUNKS_IN_MEMORY = 1, SAVE_PROGRESS_EVERY = 1\<rparr>"

definition no_files :: store_files where
  "no_files = \<lparr>index_file = None, metadata_file = None\<rparr>"

text \<open>
  The builder state with the entries \<open>md\<close> indexed and persisted and nothing staged,
  and the state in which the run with the failing embedder stops.
\<close>

definition sample_state :: "entry list \<Rightarrow> int \<Rightarrow> int \<Rightarrow> nat \<Rightarrow> builder" where
  "sample_state md nid tot calls =
     \<lparr>index = Some (sample_index (map entry_id md)), metadata = md, next_id = nid,
      current_chunks = [], current_entries = [],
      total_new_chunks = tot, processed_chunks = 0,
      files = \<lparr>index_file = Some (sample_index (map entry_id md)), metadata_file = Some md\<rparr>,
      embed_calls = calls\<rparr>"

definition sample_interrupted :: builder where
  "sample_interrupted =
     (sample_state [sample_entry 0 ''A1''] 2 2 2)
       \<lparr>current_chunks := [''beta''], current_entries := [sample_entry 1 ''A2'']\<rparr>"




section \<open>Vocabulary of the proofs\<close>

text \<open>
  The ids stored in the index, in insertion order; agreement of an index with a metadata
  log is equality of their sets of ids; the persisted files agree when the two of them,
  if both exist, do.
\<close>

definition index_ids :: "faiss_index option \<Rightarrow> int list" where
  "index_ids ix = (case ix of None \<Rightarrow> [] | Some i \<Rightarrow> map fst (index_rows i))"

definition ids_agree :: "faiss_index option \<Rightarrow> entry list \<Rightarrow> bool" where
  "ids_agree ix md = (set (index_ids ix) = set (map entry_id md))"

definition files_agree :: "store_files \<Rightarrow> bool" where
  "files_agree fs = (case (index_file fs, metadata_file fs) of
       (Some ix, Some md) \<Rightarrow> ids_agree (Some ix) md
     | _ \<Rightarrow> True)"

text \<open>
  A chunk of the corpus as the builder meets it: ticker directory, filing record, position
  and text. \<open>new_entries K n its\<close> are the metadata entries the builder makes of the
  chunks \<open>its\<close> whose key is not in \<open>K\<close>, numbered from \<open>n\<close>.
\<close>

type_synonym item = "string \<times> filing \<times> nat \<times> string"

definition item_key :: "item \<Rightarrow> chunk_key" where
  "item_key it = (case it of (tk, record, idx, chunk) \<Rightarrow> (tk, rec_accession record, int idx))"

definition new_entry :: "int \<Rightarrow> item \<Rightarrow> entry" where
  "new_entry nid it = (case it of (tk, record, idx, chunk) \<Rightarrow>
     \<lparr>entry_id = nid, ticker = tk, accession = rec_accession record, chunk_index = int idx,
      filing_date = rec_filing_date record, form = rec_form record\<rparr>)"

fun new_entries :: "chunk_key set \<Rightarrow> int \<Rightarrow> item list \<Rightarrow> entry list" where
  "new_entries K n [] = []"
| "new_entries K n (it # its) =
     (if item_key it \<in> K then new_entries K n its
      else new_entry n it # new_entries K (n + 1) its)"

text \<open>
  The entries a builder state holds, flushed or not. \<open>staging K its s s'\<close>: from \<open>s\<close>
  to \<open>s'\<close> the chunks \<open>its\<close> have gone through the deduplication check against
  \<open>K\<close> and the new ones have been staged.
\<close>

definition staged :: "builder \<Rightarrow> entry list" where
  "staged s = metadata s @ current_entries s"

definition balanced :: "builder \<Rightarrow> bool" where
  "balanced s = (length (current_chunks s) = length (current_entries s))"

definition staging :: "chunk_key set \<Rightarrow> item list \<Rightarrow> builder \<Rightarrow> builder \<Rightarrow> bool" where
  "staging K its s s' =
     (balanced s \<longrightarrow>
        balanced s' \<and>
        staged s' = staged s @ new_entries K (next_id s) its \<and>
        next_id s' = next_id s + int (length (new_entries K (next_id s) its)) \<and>
        total_new_chunks s' = total_new_chunks s + int (length (new_entries K (next_id s) its)))"

text \<open>
  \<open>grows s s'\<close>: from \<open>s\<close> to \<open>s'\<close> the metadata log and the index have been
  extended by the same entries, and the files are those of \<open>s\<close> or hold an index and
  a log that extend those of \<open>s\<close> by the same entries, a prefix of that extension.
\<close>

definition grows :: "builder \<Rightarrow> builder \<Rightarrow> bool" where
  "grows s s' =
     (\<exists>ext. metadata s' = metadata s @ ext \<and>
            index_ids (index s') = index_ids (index s) @ map entry_id ext \<and>
            (files s' = files s \<or>
             (\<exists>ix saved. files s' = \<lparr>index_file = Some ix, metadata_file = Some (metadata s @ saved)\<rparr> \<and>
                prefix saved ext \<and>
                map fst (index_rows ix) = index_ids (index s) @ map entry_id saved)))"

text \<open>
  The chunks of a text under the configuration of the code, and the chunks of the corpus
  in the order of the traversal; a file is readable when the traversal does not raise on
  it.
\<close>

definition default_chunks :: "(string \<Rightarrow> token list) \<Rightarrow> (token list \<Rightarrow> string) \<Rightarrow> string \<Rightarrow> string list" where
  "default_chunks enc dec txt =
     (case chunk_text enc dec txt CHUNK_SIZE CHUNK_OVERLAP of None \<Rightarrow> [] | Some chunks \<Rightarrow> chunks)"

definition file_items ::
  "(string \<Rightarrow> token list) \<Rightarrow> (token list \<Rightarrow> string) \<Rightarrow> string \<Rightarrow> string \<times> file_content \<Rightarrow> item list" where
  "file_items enc dec tk f =
     (case f of (fname, content) \<Rightarrow>
        if endswith fname ''.json'' then
          (case content of
             Malformed \<Rightarrow> []
           | Filing record \<Rightarrow>
               map (\<lambda>(idx, chunk). (tk, record, idx, chunk))
                 (enumerate 0 (default_chunks enc dec (rec_text record))))
        else [])"

definition ticker_items ::
  "(string \<Rightarrow> token list) \<Rightarrow> (token list \<Rightarrow> string) \<Rightarrow> string \<times> dir_entry \<Rightarrow> item list" where
  "ticker_items enc dec t =
     (case t of (tk, node) \<Rightarrow>
        (case node of File \<Rightarrow> [] | Dir fs \<Rightarrow> concat (map (file_items enc dec tk) fs)))"

definition corpus_items ::
  "(string \<Rightarrow> token list) \<Rightarrow> (token list \<Rightarrow> string) \<Rightarrow> corpus \<Rightarrow> item list" where
  "corpus_items enc dec data_dir = concat (map (ticker_items enc dec) data_dir)"

definition file_readable :: "string \<times> file_content \<Rightarrow> bool" where
  "file_readable f = (case f of (fname, content) \<Rightarrow> \<not> (endswith fname ''.json'' \<and> content = Malformed))"

definition ticker_readable :: "string \<times> dir_entry \<Rightarrow> bool" where
  "ticker_readable t = (case t of (tk, node) \<Rightarrow>
      (case node of File \<Rightarrow> True | Dir fs \<Rightarrow> list_all file_readable fs))"

text \<open>The state after a new chunk has been appended to the staging buffers.\<close>

definition stage :: "builder \<Rightarrow> item \<Rightarrow> builder" where
  "stage s it =
     s\<lparr>current_chunks := current_chunks s @ [snd (snd (snd it))],
       current_entries := current_entries s @ [new_entry (next_id s) it],
       next_id := next_id s + 1,
       total_new_chunks := total_new_chunks s + 1\<rparr>"

text \<open>
  The metadata log of \<open>s\<close> is a prefix of what a run from the log \<open>md\<close>, the keys
  \<open>K\<close> and the next id \<open>n\<close> stores for a prefix of the chunks \<open>items\<close>.
\<close>

definition run_bound :: "entry list \<Rightarrow> chunk_key set \<Rightarrow> int \<Rightarrow> item list \<Rightarrow> builder \<Rightarrow> bool" where
  "run_bound md K n items s =
     (\<exists>its. prefix its items \<and> prefix (metadata s) (md @ new_entries K n its))"

section \<open>The chunker\<close>

lemma char_dec_enc: "char_dec (char_enc s) = s"
  by (simp add: char_enc_def char_dec_def comp_def map_idI)

lemma length_char_enc: "length (char_enc s) = length s"
  by (simp add: char_enc_def)

lemma char_enc_Nil_iff: "char_enc s = [] \<longleftrightarrow> s = []"
  by (simp add: char_enc_def)

lemma py_slice_whole: "py_slice xs 0 (int (length xs)) = xs"
  by (simp add: py_slice_def Let_def)

lemma py_slice_window:
  assumes "s \<le> length xs" "0 \<le> cs"
  shows "py_slice xs (int s) (min (int s + cs) (int (length xs))) = take (nat cs) (drop s xs)"
  using assms by (auto simp: py_slice_def Let_def min_def nat_add_distrib nat_diff_distrib)

lemma chunk_loop_closed:
  assumes "0 \<le> ov" "ov < cs" "s < length toks"
  shows "\<exists>n>0. (\<forall>dec acc. chunk_loop dec toks cs ov (int s) acc =
            Some (acc @ map (\<lambda>i. dec (take (nat cs) (drop (s + i * nat (cs - ov)) toks))) [0..<n]))
       \<and> s + (n - 1) * nat (cs - ov) < length toks
       \<and> length toks \<le> s + (n - 1) * nat (cs - ov) + nat cs
       \<and> (\<forall>i. Suc i < n \<longrightarrow> s + i * nat (cs - ov) + nat cs < length toks)"
  using assms
proof (induction "length toks - s" arbitrary: s rule: less_induct)
  case less
  let ?len = "length toks"
  let ?step = "nat (cs - ov)"
  have step: "0 < ?step" "int ?step = cs - ov" using less.prems by auto
  have cs: "int (nat cs) = cs" using less.prems by auto
  show ?case
  proof (cases "int ?len \<le> int s + cs")
    case True
    then have e: "min (int s + cs) (int ?len) = int ?len" by simp
    have "\<forall>dec acc. chunk_loop dec toks cs ov (int s) acc =
            Some (acc @ map (\<lambda>i. dec (take (nat cs) (drop (s + i * ?step) toks))) [0..<1])"
      using less.prems(3) py_slice_window[of s toks cs] e less.prems(1,2)
      by (subst chunk_loop.simps) (simp add: Let_def)
    moreover have "?len \<le> s + nat cs" using True cs by linarith
    ultimately show ?thesis using less.prems(3)
      by (intro exI[of _ 1]) simp
  next
    case False
    then have e: "min (int s + cs) (int ?len) = int s + cs" "int s + cs \<noteq> int ?len" by simp_all
    let ?s' = "s + ?step"
    have s': "?s' < ?len" "int ?s' = int s + (cs - ov)" using False less.prems step by linarith+
    have "?len - ?s' < ?len - s" using s' step by linarith
    from less.hyps[OF this less.prems(1,2) s'(1)]
    obtain n where n: "0 < n"
      "\<And>dec acc. chunk_loop dec toks cs ov (int ?s') acc =
            Some (acc @ map (\<lambda>i. dec (take (nat cs) (drop (?s' + i * ?step) toks))) [0..<n])"
      "?s' + (n - 1) * ?step < ?len"
      "?len \<le> ?s' + (n - 1) * ?step + nat cs"
      "\<And>i. Suc i < n \<Longrightarrow> ?s' + i * ?step + nat cs < ?len"
      by blast
    have run: "\<forall>dec acc. chunk_loop dec toks cs ov (int s) acc =
            Some (acc @ map (\<lambda>i. dec (take (nat cs) (drop (s + i * ?step) toks))) [0..<Suc n])"
    proof (intro allI)
      fix dec acc
      have "chunk_loop dec toks cs ov (int s) acc =
            chunk_loop dec toks cs ov (int ?s') (acc @ [dec (take (nat cs) (drop s toks))])"
        using less.prems(3) py_slice_window[of s toks cs] e less.prems(1,2) s'(2)
        by (subst chunk_loop.simps) (simp add: Let_def)
      also have "\<dots> = Some ((acc @ [dec (take (nat cs) (drop s toks))]) @
            map (\<lambda>i. dec (take (nat cs) (drop (?s' + i * ?step) toks))) [0..<n])"
        by (rule n(2))
      also have "(acc @ [dec (take (nat cs) (drop s toks))]) @
            map (\<lambda>i. dec (take (nat cs) (drop (?s' + i * ?step) toks))) [0..<n] =
          acc @ map (\<lambda>i. dec (take (nat cs) (drop (s + i * ?step) toks))) [0..<Suc n]"
        by (simp add: upt_conv_Cons[of 0] map_Suc_upt[symmetric] add.assoc del: upt_Suc)
      finally show "chunk_loop dec toks cs ov (int s) acc =
            Some (acc @ map (\<lambda>i. dec (take (nat cs) (drop (s + i * ?step) toks))) [0..<Suc n])" .
    qed
    have a: "s + (Suc n - 1) * ?step < ?len" using n(1,3) by (cases n) (simp_all add: add.assoc)
    have b: "?len \<le> s + (Suc n - 1) * ?step + nat cs" using n(1,4) by (cases n) (simp_all add: add.assoc)
    have c: "\<forall>i. Suc i < Suc n \<longrightarrow> s + i * ?step + nat cs < ?len"
    proof (intro allI impI)
      fix i assume i: "Suc i < Suc n"
      show "s + i * ?step + nat cs < ?len"
      proof (cases i)
        case 0
        have "s + nat cs < ?len" using False cs by linarith
        with 0 show ?thesis by simp
      next
        case (Suc j)
        with i n(5)[of j] show ?thesis by (simp add: add.assoc)
      qed
    qed
    from run a b c show ?thesis by (intro exI[of _ "Suc n"]) blast
  qed
qed

lemma take_window: "a \<le> length xs \<Longrightarrow> take (min (a + c) (length xs) - a) (drop a xs) = take c (drop a xs)"
  by (simp add: min_def)

text \<open>
  With \<open>chunk_size \<le> overlap\<close> the window never moves forward: from a start at or
  before 0, on more tokens than one window holds, the loop has no result.
\<close>

lemma chunk_loop_diverges_aux:
  assumes "chunk_loop dec tokens chunk_size overlap start chunks = Some r"
  shows "\<not> (chunk_size \<le> overlap \<and> chunk_size < int (length tokens) \<and> tokens \<noteq> [] \<and> start \<le> 0)"
proof (rule chunk_loop.raw_induct[where P = "\<lambda>dec tokens chunk_size overlap start chunks r.
   \<not> (chunk_size \<le> overlap \<and> chunk_size < int (length tokens) \<and> tokens \<noteq> [] \<and> start \<le> 0)", OF _ assms], goal_cases)
  case (1 f dec tokens chunk_size overlap start chunks r)
  show ?case
  proof
    assume bad: "chunk_size \<le> overlap \<and> chunk_size < int (length tokens) \<and> tokens \<noteq> [] \<and> start \<le> 0"
    then have "0 < length tokens" by simp
    with bad have lt: "start < int (length tokens)" by linarith
    from bad have ne: "min (start + chunk_size) (int (length tokens)) = start + chunk_size"
      "start + chunk_size \<noteq> int (length tokens)"
      by linarith+
    from 1(2) lt ne
    have "f dec tokens chunk_size overlap (start + (chunk_size - overlap))
            (chunks @ [dec (py_slice tokens start (min (start + chunk_size) (int (length tokens))))]) = Some r"
      by (simp add: Let_def)
    from 1(1)[OF this] bad show False by linarith
  qed
qed

lemma chunk_loop_diverges:
  assumes "chunk_size \<le> overlap" "chunk_size < int (length tokens)" "tokens \<noteq> []" "start \<le> 0"
  shows "chunk_loop dec tokens chunk_size overlap start chunks = None"
proof (cases "chunk_loop dec tokens chunk_size overlap start chunks")
  case None
  then show ?thesis .
next
  case (Some r)
  from chunk_loop_diverges_aux[OF Some] assms show ?thesis by blast
qed

lemma chunk_text_unvalidated:
  assumes "chunk_size \<le> overlap"
  shows "chunk_text enc dec text chunk_size overlap =
     (if enc text = [] then Some []
      else if int (length (enc text)) \<le> chunk_size then Some [dec (enc text)]
      else None)"
proof (cases "enc text = []")
  case True
  then show ?thesis by (simp add: chunk_text_def chunk_loop.simps)
next
  case ne: False
  show ?thesis
  proof (cases "int (length (enc text)) \<le> chunk_size")
    case True
    with ne show ?thesis
      by (simp add: chunk_text_def chunk_loop.simps[of _ _ _ _ 0] Let_def py_slice_whole min_def)
  next
    case False
    with ne assms chunk_loop_diverges[of chunk_size overlap "enc text" 0 dec "[]"]
    show ?thesis by (simp add: chunk_text_def)
  qed
qed

text \<open>
  C4. For \<open>0 \<le> overlap < chunk_size\<close>, \<open>chunk_text\<close> returns, and its chunks are the
  decoded token windows \<open>[a, b)\<close> of a list \<open>ws\<close> in which every window is non-empty, at
  most \<open>chunk_size\<close> tokens long and inside the text; each window starts after the one
  before it and shares exactly \<open>overlap\<close> tokens with it; the first window starts at
  token 0 and the last one ends at the token count; empty text yields no chunk.
\<close>

theorem chunk_text_shape:
  assumes "0 \<le> overlap" "overlap < chunk_size"
  shows "\<exists>ws. (\<forall>dec. chunk_text enc dec text chunk_size overlap =
                    Some (map (\<lambda>(a, b). dec (take (b - a) (drop a (enc text)))) ws))
     \<and> (\<forall>(a, b) \<in> set ws. a < b \<and> int (b - a) \<le> chunk_size \<and> b \<le> length (enc text))
     \<and> (\<forall>i. Suc i < length ws \<longrightarrow>
            fst (ws ! i) < fst (ws ! Suc i) \<and> snd (ws ! i) < snd (ws ! Suc i) \<and>
            int (snd (ws ! i)) - int (fst (ws ! Suc i)) = overlap)
     \<and> (enc text = [] \<longrightarrow> ws = [])
     \<and> (enc text \<noteq> [] \<longrightarrow> ws \<noteq> [] \<and> fst (hd ws) = 0 \<and> snd (last ws) = length (enc text))"
proof (cases "enc text = []")
  case True
  then have "\<forall>dec. chunk_text enc dec text chunk_size overlap = Some []"
    by (simp add: chunk_text_def chunk_loop.simps)
  with True show ?thesis by (intro exI[of _ "[]"]) simp
next
  case False
  let ?toks = "enc text"
  let ?len = "length ?toks"
  let ?step = "nat (chunk_size - overlap)"
  let ?cs = "nat chunk_size"
  have step: "0 < ?step" "?step + nat overlap = ?cs" "int ?cs = chunk_size" using assms by auto
  from False have "0 < ?len" by simp
  from chunk_loop_closed[OF assms this]
  obtain n where n: "0 < n"
      "\<And>dec acc. chunk_loop dec ?toks chunk_size overlap 0 acc =
            Some (acc @ map (\<lambda>i. dec (take ?cs (drop (i * ?step) ?toks))) [0..<n])"
      "(n - 1) * ?step < ?len"
      "?len \<le> (n - 1) * ?step + ?cs"
      "\<And>i. Suc i < n \<Longrightarrow> i * ?step + ?cs < ?len"
    by auto
  define ws where "ws = map (\<lambda>i. (i * ?step, min (i * ?step + ?cs) ?len)) [0..<n]"
  have len_ws: "length ws = n" by (simp add: ws_def)
  have nth_ws: "\<And>i. i < n \<Longrightarrow> ws ! i = (i * ?step, min (i * ?step + ?cs) ?len)"
    by (simp add: ws_def)
  have start_lt: "\<And>i. i < n \<Longrightarrow> i * ?step < ?len"
  proof -
    fix i assume "i < n"
    then have "i \<le> n - 1" by simp
    then have "i * ?step \<le> (n - 1) * ?step" by (rule mult_le_mono1)
    then show "i * ?step < ?len" using n(3) by (rule le_less_trans)
  qed
  have full: "\<And>i. Suc i < n \<Longrightarrow> ws ! i = (i * ?step, i * ?step + ?cs)"
  proof -
    fix i assume i: "Suc i < n"
    from n(5)[OF i] have "min (i * ?step + ?cs) ?len = i * ?step + ?cs" by simp
    with i show "ws ! i = (i * ?step, i * ?step + ?cs)" by (simp add: nth_ws)
  qed
  have c1: "\<forall>dec. chunk_text enc dec text chunk_size overlap =
                    Some (map (\<lambda>(a, b). dec (take (b - a) (drop a ?toks))) ws)"
  proof
    fix dec :: "token list \<Rightarrow> string"
    have "map (\<lambda>(a, b). dec (take (b - a) (drop a ?toks))) ws =
          map (\<lambda>i. dec (take ?cs (drop (i * ?step) ?toks))) [0..<n]"
      unfolding ws_def using start_lt by (simp add: take_window less_imp_le)
    with n(2)[of dec "[]"] show "chunk_text enc dec text chunk_size overlap =
                    Some (map (\<lambda>(a, b). dec (take (b - a) (drop a ?toks))) ws)"
      by (simp add: chunk_text_def)
  qed
  have c2: "\<forall>(a, b) \<in> set ws. a < b \<and> int (b - a) \<le> chunk_size \<and> b \<le> ?len"
  proof -
    have "\<And>i. i < n \<Longrightarrow> i * ?step < min (i * ?step + ?cs) ?len \<and>
             int (min (i * ?step + ?cs) ?len - i * ?step) \<le> chunk_size"
      using start_lt step assms by (auto simp: min_def)
    then show ?thesis by (auto simp: ws_def)
  qed
  have c3: "\<forall>i. Suc i < length ws \<longrightarrow>
            fst (ws ! i) < fst (ws ! Suc i) \<and> snd (ws ! i) < snd (ws ! Suc i) \<and>
            int (snd (ws ! i)) - int (fst (ws ! Suc i)) = overlap"
  proof (intro allI impI)
    fix i assume "Suc i < length ws"
    then have i: "Suc i < n" by (simp add: len_ws)
    have a: "ws ! i = (i * ?step, i * ?step + ?cs)" by (rule full[OF i])
    have b: "ws ! Suc i = (Suc i * ?step, min (Suc i * ?step + ?cs) ?len)" by (rule nth_ws[OF i])
    have "i * ?step + ?cs < ?len" by (rule n(5)[OF i])
    with a b step assms
    show "fst (ws ! i) < fst (ws ! Suc i) \<and> snd (ws ! i) < snd (ws ! Suc i) \<and>
            int (snd (ws ! i)) - int (fst (ws ! Suc i)) = overlap"
      by (auto simp: min_def)
  qed
  have c5: "ws \<noteq> [] \<and> fst (hd ws) = 0 \<and> snd (last ws) = ?len"
  proof -
    from n(1) len_ws have ne: "ws \<noteq> []" by auto
    have "hd ws = ws ! 0" using ne by (simp add: hd_conv_nth)
    with nth_ws[of 0] n(1) have h: "fst (hd ws) = 0" by simp
    have "last ws = ws ! (n - 1)" using ne len_ws by (simp add: last_conv_nth)
    with nth_ws[of "n - 1"] n(1,4) have "snd (last ws) = ?len" by (simp add: min_def)
    with ne h show ?thesis by simp
  qed
  from c1 c2 c3 c5 False show ?thesis by (intro exI[of _ ws]) simp
qed

theorem chunk_text_shape_witness:
  "(0::int) \<le> 1 \<and> (1::int) < 3 \<and>
   (\<exists>ws. (\<forall>dec. chunk_text char_enc dec ''abcde'' 3 1 =
                    Some (map (\<lambda>(a, b). dec (take (b - a) (drop a (char_enc ''abcde'')))) ws))
     \<and> (\<forall>(a, b) \<in> set ws. a < b \<and> int (b - a) \<le> 3 \<and> b \<le> length (char_enc ''abcde''))
     \<and> (\<forall>i. Suc i < length ws \<longrightarrow>
            fst (ws ! i) < fst (ws ! Suc i) \<and> snd (ws ! i) < snd (ws ! Suc i) \<and>
            int (snd (ws ! i)) - int (fst (ws ! Suc i)) = 1)
     \<and> (char_enc ''abcde'' = [] \<longrightarrow> ws = [])
     \<and> (char_enc ''abcde'' \<noteq> [] \<longrightarrow>
            ws \<noteq> [] \<and> fst (hd ws) = 0 \<and> snd (last ws) = length (char_enc ''abcde'')))"
proof -
  have h1: "(0::int) \<le> 1" and h2: "(1::int) < 3" by simp_all
  from chunk_text_shape[OF h1 h2, of char_enc "''abcde''"] h1 h2 show ?thesis by blast
qed

text \<open>
  C5, as the claim states it, fails: a call with \<open>overlap = chunk_size = 2\<close> on a
  one-token text returns the single chunk; nothing is raised.
\<close>

theorem chunk_text_no_configuration_error:
  "chunk_text char_enc char_dec ''a'' 2 2 = Some [''a'']"
proof -
  have "(2::int) \<le> 2" by simp
  from chunk_text_unvalidated[OF this, of char_enc char_dec "''a''"]
  show ?thesis by (simp add: char_dec_enc length_char_enc char_enc_Nil_iff)
qed

text \<open>
  C5, amended. \<open>chunk_text\<close> does not validate its configuration and raises nothing: with
  \<open>overlap \<ge> chunk_size\<close> it returns no chunk for an empty text, the whole text as one
  chunk when the text has at most \<open>chunk_size\<close> tokens, and otherwise never returns.
\<close>

theorem chunk_text_overlap_ge_size:
  assumes "chunk_size \<le> overlap"
  shows "chunk_text enc dec text chunk_size overlap =
     (if enc text = [] then Some []
      else if int (length (enc text)) \<le> chunk_size then Some [dec (enc text)]
      else None)"
  using assms by (rule chunk_text_unvalidated)

theorem chunk_text_overlap_ge_size_witness:
  "(1::int) \<le> 1 \<and> chunk_text char_enc char_dec ''ab'' 1 1 = None"
proof -
  have h: "(1::int) \<le> 1" by simp
  from chunk_text_overlap_ge_size[OF h, of char_enc char_dec "''ab''"] h
  show ?thesis by (simp add: length_char_enc char_enc_Nil_iff)
qed

section \<open>The store and the builder\<close>

lemma and_then_Ok_iff: "and_then r f = Ok s' \<longleftrightarrow> (\<exists>s1. r = Ok s1 \<and> f s1 = Ok s')"
  by (cases r) auto

lemma and_then_Raise_iff:
  "and_then r f = Raise e s' \<longleftrightarrow> r = Raise e s' \<or> (\<exists>s1. r = Ok s1 \<and> f s1 = Raise e s')"
  by (cases r) auto

lemma and_then_Diverge_iff:
  "and_then r f = Diverge \<longleftrightarrow> r = Diverge \<or> (\<exists>s1. r = Ok s1 \<and> f s1 = Diverge)"
  by (cases r) auto


lemma py_max_Max: "xs \<noteq> [] \<Longrightarrow> py_max xs = Inr (Max (set xs))"
  by (cases xs) (simp_all add: py_max_def Max.set_eq_fold[symmetric])

lemma initialize_index_loaded:
  assumes "metadata_file fs = Some md" "index_file fs = Some ix" "md \<noteq> []"
  shows "initialize_index fs = Inr (Some ix, md, set (map key_of md), Max (set (map entry_id md)) + 1)"
  using assms by (simp add: initialize_index_def py_max_Max)

lemma initialize_index_fresh:
  assumes "metadata_file fs = None \<or> index_file fs = None"
  shows "initialize_index fs = Inr (None, [], {}, 0)"
  using assms by (auto simp: initialize_index_def split: option.splits)

lemma save_index_metadata_eq:
  "save_index_metadata s =
     (case index s of
        None \<Rightarrow> Raise TypeError s
      | Some ix \<Rightarrow> Ok (s\<lparr>files := \<lparr>index_file = Some ix, metadata_file = Some (metadata s)\<rparr>\<rparr>))"
  by (simp add: save_index_metadata_def write_index_def write_metadata_def split: option.splits)

lemma embed_sub_batches_calls:
  "embed_sub_batches embed_texts calls rest acc = (r, calls') \<Longrightarrow> calls \<le> calls'"
proof (induction embed_texts calls rest acc rule: embed_sub_batches.induct)
  case (1 embed_texts calls rest acc)
  show ?case
  proof (cases "rest = []")
    case True
    with "1.prems" show ?thesis by (simp add: embed_sub_batches.simps)
  next
    case ne: False
    show ?thesis
    proof (cases "embed_texts calls (take BATCH_SIZE rest)")
      case (Inl e)
      with ne "1.prems" show ?thesis by (simp add: embed_sub_batches.simps[of _ calls])
    next
      case (Inr vs)
      with ne "1.prems" have "embed_sub_batches embed_texts (Suc calls) (drop BATCH_SIZE rest) (acc @ vs) = (r, calls')"
        by (simp add: embed_sub_batches.simps[of _ calls])
      from "1.IH"[OF ne Inr this] show ?thesis by simp
    qed
  qed
qed

lemma process_chunk_batch_Raise:
  assumes "process_chunk_batch embed_texts nrm chunks entries s = Raise e s'"
  shows "\<exists>c. s' = s\<lparr>embed_calls := c\<rparr>"
  using assms
  by (auto simp: process_chunk_batch_def Let_def
           split: if_splits prod.splits sum.splits list.splits)

lemma process_chunk_batch_not_Diverge:
  "process_chunk_batch embed_texts nrm chunks entries s \<noteq> Diverge"
  by (auto simp: process_chunk_batch_def Let_def
           split: if_splits prod.splits sum.splits list.splits)

lemma process_chunk_batch_Ok:
  assumes "process_chunk_batch embed_texts nrm chunks entries s = Ok s'" "chunks \<noteq> []"
  shows "\<exists>ix' c. s' = s\<lparr>embed_calls := c, index := Some ix', metadata := metadata s @ entries\<rparr>
           \<and> map fst (index_rows ix') = index_ids (index s) @ map entry_id entries"
  using assms
  by (auto simp: process_chunk_batch_def Let_def add_with_ids_def index_ids_def build_empty_faiss_def
           split: if_splits prod.splits sum.splits list.splits option.splits)

lemma process_chunk_batch_Ok_empty:
  "process_chunk_batch embed_texts nrm [] entries s = Ok s"
  by (simp add: process_chunk_batch_def)

lemma new_entries_append:
  "new_entries K n (xs @ ys) =
     new_entries K n xs @ new_entries K (n + int (length (new_entries K n xs))) ys"
  by (induction xs arbitrary: n) (simp_all add: add.assoc)

lemma key_of_new_entry: "key_of (new_entry n it) = item_key it"
  by (cases it) (simp add: key_of_def new_entry_def item_key_def)

lemma keys_new_entries:
  "map key_of (new_entries K n its) = filter (\<lambda>k. k \<notin> K) (map item_key its)"
  by (induction its arbitrary: n) (simp_all add: key_of_new_entry)

lemma new_entries_Nil_iff: "new_entries K n its = [] \<longleftrightarrow> item_key ` set its \<subseteq> K"
  by (induction its arbitrary: n) auto

lemma grows_refl: "grows s s"
  by (auto simp: grows_def)

lemma grows_trans:
  assumes "grows a b" "grows b c"
  shows "grows a c"
proof -
  from assms(1) obtain e1 where e1: "metadata b = metadata a @ e1"
    "index_ids (index b) = index_ids (index a) @ map entry_id e1"
    and f1: "files b = files a \<or>
             (\<exists>ix saved. files b = \<lparr>index_file = Some ix, metadata_file = Some (metadata a @ saved)\<rparr> \<and>
                prefix saved e1 \<and>
                map fst (index_rows ix) = index_ids (index a) @ map entry_id saved)"
    unfolding grows_def by blast
  from assms(2) obtain e2 where e2: "metadata c = metadata b @ e2"
    "index_ids (index c) = index_ids (index b) @ map entry_id e2"
    and f2: "files c = files b \<or>
             (\<exists>ix saved. files c = \<lparr>index_file = Some ix, metadata_file = Some (metadata b @ saved)\<rparr> \<and>
                prefix saved e2 \<and>
                map fst (index_rows ix) = index_ids (index b) @ map entry_id saved)"
    unfolding grows_def by blast
  have m: "metadata c = metadata a @ (e1 @ e2)" using e1 e2 by simp
  have i: "index_ids (index c) = index_ids (index a) @ map entry_id (e1 @ e2)" using e1 e2 by simp
  have f: "files c = files a \<or>
             (\<exists>ix saved. files c = \<lparr>index_file = Some ix, metadata_file = Some (metadata a @ saved)\<rparr> \<and>
                prefix saved (e1 @ e2) \<and>
                map fst (index_rows ix) = index_ids (index a) @ map entry_id saved)"
  proof -
    from f2 show ?thesis
    proof
      assume same: "files c = files b"
      from f1 show ?thesis
      proof
        assume "files b = files a"
        with same show ?thesis by simp
      next
        assume "\<exists>ix saved. files b = \<lparr>index_file = Some ix, metadata_file = Some (metadata a @ saved)\<rparr> \<and>
                prefix saved e1 \<and>
                map fst (index_rows ix) = index_ids (index a) @ map entry_id saved"
        then obtain ix saved where "files b = \<lparr>index_file = Some ix, metadata_file = Some (metadata a @ saved)\<rparr>"
          "prefix saved e1" "map fst (index_rows ix) = index_ids (index a) @ map entry_id saved"
          by blast
        with same show ?thesis by (auto intro: prefix_prefix)
      qed
    next
      assume "\<exists>ix saved. files c = \<lparr>index_file = Some ix, metadata_file = Some (metadata b @ saved)\<rparr> \<and>
                prefix saved e2 \<and>
                map fst (index_rows ix) = index_ids (index b) @ map entry_id saved"
      then obtain ix saved where s: "files c = \<lparr>index_file = Some ix, metadata_file = Some (metadata b @ saved)\<rparr>"
          "prefix saved e2" "map fst (index_rows ix) = index_ids (index b) @ map entry_id saved"
        by blast
      have "files c = \<lparr>index_file = Some ix, metadata_file = Some (metadata a @ (e1 @ saved))\<rparr>"
        using s(1) e1 by simp
      moreover have "prefix (e1 @ saved) (e1 @ e2)" using s(2) by simp
      moreover have "map fst (index_rows ix) = index_ids (index a) @ map entry_id (e1 @ saved)"
        using s(3) e1 by simp
      ultimately show ?thesis by blast
    qed
  qed
  from m i f show ?thesis unfolding grows_def by blast
qed

lemma staging_Nil: "staging K [] s s"
  by (simp add: staging_def)

lemma staging_append:
  assumes "staging K a s s1" "staging K b s1 s2"
  shows "staging K (a @ b) s s2"
  using assms by (auto simp: staging_def new_entries_append)

lemma ends_in_and_then:
  assumes "ends_in P r" "\<And>s. P s \<Longrightarrow> r = Ok s \<Longrightarrow> ends_in Q (f s)" "\<And>e s. P s \<Longrightarrow> r = Raise e s \<Longrightarrow> Q s"
  shows "ends_in Q (and_then r f)"
  using assms by (cases r) auto

lemma for_each_rel:
  assumes refl: "\<And>s. R s s"
      and trans: "\<And>a b c. R a b \<Longrightarrow> R b c \<Longrightarrow> R a c"
      and step: "\<And>x s. x \<in> set xs \<Longrightarrow> ends_in (R s) (body x s)"
  shows "ends_in (R s) (for_each body xs s)"
  using step
proof (induction xs arbitrary: s)
  case Nil
  show ?case by (simp add: refl)
next
  case (Cons x xs)
  have hd: "ends_in (R s) (body x s)" by (rule Cons.prems) simp
  show ?case
  proof (cases "body x s")
    case (Ok s1)
    with hd have r1: "R s s1" by simp
    have "ends_in (R s1) (for_each body xs s1)"
      by (rule Cons.IH) (simp add: Cons.prems)
    then have "ends_in (R s) (for_each body xs s1)"
      using r1 by (cases "for_each body xs s1") (auto intro: trans)
    with Ok show ?thesis by simp
  next
    case (Raise e s1)
    with hd show ?thesis by simp
  next
    case Diverge
    with hd show ?thesis by simp
  qed
qed

lemma for_each_items:
  assumes nil: "\<And>s. Q [] s s"
      and comp: "\<And>a b s s1 s2. Q a s s1 \<Longrightarrow> Q b s1 s2 \<Longrightarrow> Q (a @ b) s s2"
      and ok: "\<And>x s s'. x \<in> set xs \<Longrightarrow> body x s = Ok s' \<Longrightarrow> Q (f x) s s'"
      and raise: "\<And>x s e s'. x \<in> set xs \<Longrightarrow> body x s = Raise e s' \<Longrightarrow>
                    \<exists>its. prefix its (f x) \<and> Q its s s'"
  shows "(for_each body xs s = Ok s' \<longrightarrow> Q (concat (map f xs)) s s') \<and>
         (for_each body xs s = Raise e s' \<longrightarrow> (\<exists>its. prefix its (concat (map f xs)) \<and> Q its s s'))"
  using ok raise
proof (induction xs arbitrary: s)
  case Nil
  show ?case by (auto simp: nil)
next
  case (Cons x xs)
  show ?case
  proof (cases "body x s")
    case (Ok s1)
    have q1: "Q (f x) s s1" by (rule Cons.prems(1)[OF _ Ok]) simp
    have ih: "(for_each body xs s1 = Ok s' \<longrightarrow> Q (concat (map f xs)) s1 s') \<and>
         (for_each body xs s1 = Raise e s' \<longrightarrow> (\<exists>its. prefix its (concat (map f xs)) \<and> Q its s1 s'))"
      by (rule Cons.IH) (auto intro: Cons.prems)
    show ?thesis
    proof (intro conjI impI)
      assume "for_each body (x # xs) s = Ok s'"
      with Ok ih have "Q (concat (map f xs)) s1 s'" by simp
      with q1 show "Q (concat (map f (x # xs))) s s'" by (simp add: comp)
    next
      assume "for_each body (x # xs) s = Raise e s'"
      with Ok ih obtain its where its: "prefix its (concat (map f xs))" "Q its s1 s'" by auto
      from q1 its(2) have "Q (f x @ its) s s'" by (rule comp)
      moreover from its(1) have "prefix (f x @ its) (concat (map f (x # xs)))" by simp
      ultimately show "\<exists>its. prefix its (concat (map f (x # xs))) \<and> Q its s s'" by blast
    qed
  next
    case (Raise e1 s1)
    show ?thesis
    proof (intro conjI impI)
      assume "for_each body (x # xs) s = Ok s'"
      with Raise show "Q (concat (map f (x # xs))) s s'" by simp
    next
      assume "for_each body (x # xs) s = Raise e s'"
      with Raise have eq: "body x s = Raise e s'" by simp
      have "\<exists>its. prefix its (f x) \<and> Q its s s'" by (rule Cons.prems(2)[OF _ eq]) simp
      then obtain its where "prefix its (f x)" "Q its s s'" by blast
      then show "\<exists>its. prefix its (concat (map f (x # xs))) \<and> Q its s s'"
        by (auto intro: prefix_prefix)
    qed
  next
    case Diverge
    then show ?thesis by simp
  qed
qed

lemma for_each_skip:
  assumes "\<And>x s. x \<in> set xs \<Longrightarrow> body x s = Ok s"
  shows "for_each body xs s = Ok s"
  using assms by (induction xs arbitrary: s) simp_all

lemma for_each_Ok_all:
  assumes "for_each body xs s = Ok s'" "\<And>x s s'. body x s = Ok s' \<Longrightarrow> P x"
  shows "list_all P xs"
  using assms(1)
proof (induction xs arbitrary: s)
  case Nil
  show ?case by simp
next
  case (Cons x xs)
  from Cons.prems obtain s1 where s1: "body x s = Ok s1" "for_each body xs s1 = Ok s'"
    by (auto simp: and_then_Ok_iff)
  from assms(2)[OF s1(1)] Cons.IH[OF s1(2)] show ?case by simp
qed

lemma chunk_text_returns:
  assumes "0 \<le> overlap" "overlap < chunk_size"
  shows "\<exists>chunks. chunk_text enc dec txt chunk_size overlap = Some chunks"
proof (cases "enc txt = []")
  case True
  then show ?thesis by (simp add: chunk_text_def chunk_loop.simps)
next
  case False
  then have "0 < length (enc txt)" by simp
  from chunk_loop_closed[OF assms this] show ?thesis
    by (auto simp: chunk_text_def)
qed

lemma chunk_text_default:
  "chunk_text enc dec txt CHUNK_SIZE CHUNK_OVERLAP = Some (default_chunks enc dec txt)"
proof -
  have "\<exists>chunks. chunk_text enc dec txt CHUNK_SIZE CHUNK_OVERLAP = Some chunks"
    by (rule chunk_text_returns) (simp_all add: CHUNK_SIZE_def CHUNK_OVERLAP_def)
  then show ?thesis by (auto simp: default_chunks_def)
qed

lemma stage_chunk_cases:
  assumes "stage_chunk cfg embed_texts nrm K tk record (idx, chunk) s = r"
  obtains
    (skip) "item_key (tk, record, idx, chunk) \<in> K" "r = Ok s"
  | (hold) "item_key (tk, record, idx, chunk) \<notin> K" "r = Ok (stage s (tk, record, idx, chunk))"
  | (failed) e c where "item_key (tk, record, idx, chunk) \<notin> K"
      "r = Raise e ((stage s (tk, record, idx, chunk))\<lparr>embed_calls := c\<rparr>)"
  | (flushed) ix c p where "item_key (tk, record, idx, chunk) \<notin> K"
      "map fst (index_rows ix) =
         index_ids (index s) @ map entry_id (current_entries (stage s (tk, record, idx, chunk)))"
      "r = Ok ((stage s (tk, record, idx, chunk))
               \<lparr>embed_calls := c, index := Some ix,
                 metadata := metadata s @ current_entries (stage s (tk, record, idx, chunk)),
                 processed_chunks := p, current_chunks := [], current_entries := []\<rparr>)"
  | (saved) ix c where "item_key (tk, record, idx, chunk) \<notin> K"
      "map fst (index_rows ix) =
         index_ids (index s) @ map entry_id (current_entries (stage s (tk, record, idx, chunk)))"
      "r = Ok ((stage s (tk, record, idx, chunk))
               \<lparr>embed_calls := c, index := Some ix,
                 metadata := metadata s @ current_entries (stage s (tk, record, idx, chunk)),
                 processed_chunks := 0, current_chunks := [], current_entries := [],
                 files := \<lparr>index_file = Some ix,
                   metadata_file = Some (metadata s @ current_entries (stage s (tk, record, idx, chunk)))\<rparr>\<rparr>)"
proof (cases "item_key (tk, record, idx, chunk) \<in> K")
  case True
  with assms have "r = Ok s" by (simp add: stage_chunk_def item_key_def)
  with True show ?thesis by (rule skip)
next
  case new: False
  let ?it = "(tk, record, idx, chunk)"
  let ?s1 = "stage s ?it"
  have s1: "?s1 = s\<lparr>current_chunks := current_chunks s @ [chunk],
                       current_entries := current_entries s @
                         [\<lparr>entry_id = next_id s, ticker = tk, accession = rec_accession record,
                           chunk_index = int idx, filing_date = rec_filing_date record,
                           form = rec_form record\<rparr>],
                       next_id := next_id s + 1,
                       total_new_chunks := total_new_chunks s + 1\<rparr>"
    by (simp add: stage_def new_entry_def)
  show ?thesis
  proof (cases "MAX_CHUNKS_IN_MEMORY cfg \<le> int (length (current_chunks ?s1))")
    case False
    with new assms s1 have "r = Ok ?s1"
      by (simp add: stage_chunk_def item_key_def Let_def)
    with new show ?thesis by (rule hold)
  next
    case full: True
    let ?flush = "process_chunk_batch embed_texts nrm (current_chunks ?s1) (current_entries ?s1) ?s1"
    have r: "r = and_then ?flush
                  (\<lambda>s2.
                     let s3 = s2\<lparr>processed_chunks :=
                                    processed_chunks s2 + int (length (current_chunks s2)),
                                  current_chunks := [], current_entries := []\<rparr>
                     in if SAVE_PROGRESS_EVERY cfg \<le> processed_chunks s3 then
                          and_then (save_index_metadata s3) (\<lambda>s4. Ok (s4\<lparr>processed_chunks := 0\<rparr>))
                        else Ok s3)"
      using new assms full s1 by (simp add: stage_chunk_def item_key_def Let_def)
    have ne: "current_chunks ?s1 \<noteq> []" by (simp add: stage_def)
    show ?thesis
    proof (cases ?flush)
      case Diverge
      with process_chunk_batch_not_Diverge show ?thesis by blast
    next
      case (Raise e s')
      from process_chunk_batch_Raise[OF Raise] obtain c where "s' = ?s1\<lparr>embed_calls := c\<rparr>"
        by blast
      with r Raise have "r = Raise e (?s1\<lparr>embed_calls := c\<rparr>)" by simp
      with new show ?thesis by (rule failed)
    next
      case (Ok s2)
      from process_chunk_batch_Ok[OF Ok ne] obtain ix c where
        s2: "s2 = ?s1\<lparr>embed_calls := c, index := Some ix,
                       metadata := metadata ?s1 @ current_entries ?s1\<rparr>"
        and ids: "map fst (index_rows ix) = index_ids (index ?s1) @ map entry_id (current_entries ?s1)"
        by blast
      have ids': "map fst (index_rows ix) = index_ids (index s) @ map entry_id (current_entries ?s1)"
        using ids by (simp add: stage_def)
      have md: "metadata ?s1 = metadata s" by (simp add: stage_def)
      show ?thesis
      proof (cases "SAVE_PROGRESS_EVERY cfg \<le> processed_chunks s2 + int (length (current_chunks s2))")
        case False
        with r Ok s2 md have "r = Ok (?s1\<lparr>embed_calls := c, index := Some ix,
                 metadata := metadata s @ current_entries ?s1,
                 processed_chunks := processed_chunks s2 + int (length (current_chunks s2)),
                 current_chunks := [], current_entries := []\<rparr>)"
          by (simp add: Let_def)
        with new ids' show ?thesis by (rule flushed)
      next
        case True
        with r Ok s2 md have "r = Ok (?s1\<lparr>embed_calls := c, index := Some ix,
                 metadata := metadata s @ current_entries ?s1,
                 processed_chunks := 0, current_chunks := [], current_entries := [],
                 files := \<lparr>index_file = Some ix,
                   metadata_file = Some (metadata s @ current_entries ?s1)\<rparr>\<rparr>)"
          by (simp add: Let_def save_index_metadata_eq)
        with new ids' show ?thesis by (rule saved)
      qed
    qed
  qed
qed

lemma stage_chunk_skip:
  assumes "item_key (tk, rcd, idx, chunk) \<in> K"
  shows "stage_chunk cfg embed_texts nrm K tk rcd (idx, chunk) s = Ok s"
  using assms by (simp add: stage_chunk_def item_key_def)

lemma stage_chunk_Raise_frame:
  assumes "stage_chunk cfg embed_texts nrm K tk rcd (idx, chunk) s = Raise e s'"
  shows "index s' = index s \<and> metadata s' = metadata s \<and> files s' = files s"
  using assms by (cases rule: stage_chunk_cases) (simp_all add: stage_def)

lemma stage_chunk_grows:
  "ends_in (grows s) (stage_chunk cfg embed_texts nrm K tk rcd (idx, chunk) s)"
proof -
  obtain r where r: "stage_chunk cfg embed_texts nrm K tk rcd (idx, chunk) s = r" by simp
  have "ends_in (grows s) r"
    using r
  proof (cases rule: stage_chunk_cases)
    case skip
    then show ?thesis by (simp add: grows_refl)
  next
    case hold
    then show ?thesis by (simp add: grows_def stage_def)
  next
    case (failed e c)
    then show ?thesis by (simp add: grows_def stage_def)
  next
    case (flushed ix c p)
    then show ?thesis by (simp add: grows_def stage_def index_ids_def)
  next
    case (saved ix c)
    then show ?thesis by (simp add: grows_def stage_def index_ids_def)
  qed
  with r show ?thesis by simp
qed

lemma stage_chunk_staging:
  "ends_in (staging K [(tk, rcd, idx, chunk)] s)
     (stage_chunk cfg embed_texts nrm K tk rcd (idx, chunk) s)"
proof -
  obtain r where r: "stage_chunk cfg embed_texts nrm K tk rcd (idx, chunk) s = r" by simp
  have "ends_in (staging K [(tk, rcd, idx, chunk)] s) r"
    using r
  proof (cases rule: stage_chunk_cases)
    case skip
    then show ?thesis by (simp add: staging_def)
  next
    case hold
    then show ?thesis by (simp add: staging_def stage_def staged_def balanced_def)
  next
    case (failed e c)
    then show ?thesis by (simp add: staging_def stage_def staged_def balanced_def)
  next
    case (flushed ix c p)
    then show ?thesis by (simp add: staging_def stage_def staged_def balanced_def)
  next
    case (saved ix c)
    then show ?thesis by (simp add: staging_def stage_def staged_def balanced_def)
  qed
  with r show ?thesis by simp
qed

lemma ends_in_Ok: "ends_in P r \<Longrightarrow> r = Ok s \<Longrightarrow> P s"
  by simp

lemma ends_in_Raise: "ends_in P r \<Longrightarrow> r = Raise e s \<Longrightarrow> P s"
  by simp

lemma ends_in_not_Diverge: "ends_in P r \<Longrightarrow> r \<noteq> Diverge"
  by auto

lemma ends_in_conj: "ends_in P r \<Longrightarrow> ends_in Q r \<Longrightarrow> ends_in (\<lambda>s. P s \<and> Q s) r"
  by (cases r) auto

lemma ends_in_mono: "ends_in P r \<Longrightarrow> (\<And>s. P s \<Longrightarrow> Q s) \<Longrightarrow> ends_in Q r"
  by (cases r) auto

text \<open>The loop over the chunks of one filing.\<close>

lemma chunk_loop_grows:
  "ends_in (grows s) (for_each (stage_chunk cfg embed_texts nrm K tk rcd) ics s)"
proof (rule for_each_rel[where R = grows])
  show "\<And>s. grows s s" by (rule grows_refl)
  show "\<And>a b c. grows a b \<Longrightarrow> grows b c \<Longrightarrow> grows a c" by (rule grows_trans)
  show "\<And>x s. x \<in> set ics \<Longrightarrow> ends_in (grows s) (stage_chunk cfg embed_texts nrm K tk rcd x s)"
  proof -
    fix x :: "nat \<times> string" and s
    show "ends_in (grows s) (stage_chunk cfg embed_texts nrm K tk rcd x s)"
      by (cases x) (simp add: stage_chunk_grows)
  qed
qed

lemma chunk_loop_staging:
  "(for_each (stage_chunk cfg embed_texts nrm K tk rcd) ics s = Ok s' \<longrightarrow>
      staging K (map (\<lambda>(idx, chunk). (tk, rcd, idx, chunk)) ics) s s') \<and>
   (for_each (stage_chunk cfg embed_texts nrm K tk rcd) ics s = Raise e s' \<longrightarrow>
      (\<exists>its. prefix its (map (\<lambda>(idx, chunk). (tk, rcd, idx, chunk)) ics) \<and> staging K its s s'))"
proof -
  let ?f = "\<lambda>ic. case ic of (idx, chunk) \<Rightarrow> [(tk, rcd, idx, chunk)]"
  have c: "concat (map ?f ics) = map (\<lambda>(idx, chunk). (tk, rcd, idx, chunk)) ics"
    by (induction ics) auto
  have "(for_each (stage_chunk cfg embed_texts nrm K tk rcd) ics s = Ok s' \<longrightarrow>
            staging K (concat (map ?f ics)) s s') \<and>
        (for_each (stage_chunk cfg embed_texts nrm K tk rcd) ics s = Raise e s' \<longrightarrow>
            (\<exists>its. prefix its (concat (map ?f ics)) \<and> staging K its s s'))"
  proof (rule for_each_items[where Q = "staging K"])
    show "\<And>s. staging K [] s s" by (rule staging_Nil)
    show "\<And>a b s s1 s2. staging K a s s1 \<Longrightarrow> staging K b s1 s2 \<Longrightarrow> staging K (a @ b) s s2"
      by (rule staging_append)
    show "\<And>x s s'. x \<in> set ics \<Longrightarrow> stage_chunk cfg embed_texts nrm K tk rcd x s = Ok s' \<Longrightarrow>
            staging K (?f x) s s'"
    proof -
      fix x :: "nat \<times> string" and s s'
      assume ok: "stage_chunk cfg embed_texts nrm K tk rcd x s = Ok s'"
      obtain idx chunk where x: "x = (idx, chunk)" by (cases x)
      from stage_chunk_staging[of K tk rcd idx chunk s cfg embed_texts nrm] ok x
      show "staging K (?f x) s s'" by simp
    qed
    show "\<And>x s e s'. x \<in> set ics \<Longrightarrow> stage_chunk cfg embed_texts nrm K tk rcd x s = Raise e s' \<Longrightarrow>
            \<exists>its. prefix its (?f x) \<and> staging K its s s'"
    proof -
      fix x :: "nat \<times> string" and s e s'
      assume bad: "stage_chunk cfg embed_texts nrm K tk rcd x s = Raise e s'"
      obtain idx chunk where x: "x = (idx, chunk)" by (cases x)
      from stage_chunk_staging[of K tk rcd idx chunk s cfg embed_texts nrm] bad x
      have "staging K (?f x) s s'" by simp
      then show "\<exists>its. prefix its (?f x) \<and> staging K its s s'" by blast
    qed
  qed
  then have main: "(for_each (stage_chunk cfg embed_texts nrm K tk rcd) ics s = Ok s' \<longrightarrow>
            staging K (map (\<lambda>(idx, chunk). (tk, rcd, idx, chunk)) ics) s s') \<and>
        (for_each (stage_chunk cfg embed_texts nrm K tk rcd) ics s = Raise e s' \<longrightarrow>
            (\<exists>its. prefix its (map (\<lambda>(idx, chunk). (tk, rcd, idx, chunk)) ics) \<and> staging K its s s'))"
    unfolding c .
  then show ?thesis .
qed

text \<open>The loop over the files of one ticker directory.\<close>

lemma process_file_grows:
  "ends_in (grows s) (process_file cfg embed_texts nrm enc dec K tk f s)"
proof (cases f)
  case (Pair fname content)
  show ?thesis
  proof (cases "endswith fname ''.json''")
    case False
    with Pair show ?thesis by (simp add: process_file_def grows_refl)
  next
    case True
    show ?thesis
    proof (cases content)
      case Malformed
      with Pair True show ?thesis by (simp add: process_file_def grows_refl)
    next
      case (Filing rcd)
      with Pair True show ?thesis
        by (simp add: process_file_def chunk_text_default chunk_loop_grows)
    qed
  qed
qed

lemma process_file_staging:
  "(process_file cfg embed_texts nrm enc dec K tk f s = Ok s' \<longrightarrow>
      staging K (file_items enc dec tk f) s s') \<and>
   (process_file cfg embed_texts nrm enc dec K tk f s = Raise e s' \<longrightarrow>
      (\<exists>its. prefix its (file_items enc dec tk f) \<and> staging K its s s'))"
proof (cases f)
  case (Pair fname content)
  show ?thesis
  proof (cases "endswith fname ''.json''")
    case False
    with Pair show ?thesis by (auto simp: process_file_def file_items_def staging_Nil)
  next
    case True
    show ?thesis
    proof (cases content)
      case Malformed
      with Pair True show ?thesis by (auto simp: process_file_def file_items_def staging_Nil)
    next
      case (Filing rcd)
      with Pair True chunk_loop_staging[of cfg embed_texts nrm K tk rcd
          "enumerate 0 (default_chunks enc dec (rec_text rcd))" s s' e]
      show ?thesis
        by (simp add: process_file_def file_items_def chunk_text_default)
    qed
  qed
qed

lemma process_file_Ok_readable:
  "process_file cfg embed_texts nrm enc dec K tk f s = Ok s' \<Longrightarrow> file_readable f"
  by (cases f) (auto simp: process_file_def file_readable_def split: if_splits file_content.splits)

lemma process_file_skip:
  assumes "file_readable f" "item_key ` set (file_items enc dec tk f) \<subseteq> K"
  shows "process_file cfg embed_texts nrm enc dec K tk f s = Ok s"
proof (cases f)
  case (Pair fname content)
  show ?thesis
  proof (cases "endswith fname ''.json''")
    case False
    with Pair show ?thesis by (simp add: process_file_def)
  next
    case True
    with assms(1) Pair obtain rcd where rec: "content = Filing rcd"
      by (cases content) (auto simp: file_readable_def)
    have "for_each (stage_chunk cfg embed_texts nrm K tk rcd)
            (enumerate 0 (default_chunks enc dec (rec_text rcd))) s = Ok s"
    proof (rule for_each_skip)
      fix x :: "nat \<times> string" and s
      assume x: "x \<in> set (enumerate 0 (default_chunks enc dec (rec_text rcd)))"
      obtain idx chunk where xc: "x = (idx, chunk)" by (cases x)
      from x xc Pair True rec have "(tk, rcd, idx, chunk) \<in> set (file_items enc dec tk f)"
        by (force simp: file_items_def)
      with assms(2) have "item_key (tk, rcd, idx, chunk) \<in> K" by blast
      with xc show "stage_chunk cfg embed_texts nrm K tk rcd x s = Ok s"
        by (simp add: stage_chunk_skip)
    qed
    with Pair True rec show ?thesis by (simp add: process_file_def chunk_text_default)
  qed
qed

text \<open>The loop over the names in the corpus directory.\<close>

lemma process_ticker_grows:
  "ends_in (grows s) (process_ticker cfg embed_texts nrm enc dec K t s)"
proof (cases t)
  case (Pair tk node)
  show ?thesis
  proof (cases node)
    case File
    with Pair show ?thesis by (simp add: process_ticker_def grows_refl)
  next
    case (Dir fs)
    have "ends_in (grows s) (for_each (process_file cfg embed_texts nrm enc dec K tk) fs s)"
      by (rule for_each_rel[where R = grows]) (auto intro: grows_refl grows_trans process_file_grows)
    with Pair Dir show ?thesis by (simp add: process_ticker_def)
  qed
qed

lemma process_ticker_staging:
  "(process_ticker cfg embed_texts nrm enc dec K t s = Ok s' \<longrightarrow>
      staging K (ticker_items enc dec t) s s') \<and>
   (process_ticker cfg embed_texts nrm enc dec K t s = Raise e s' \<longrightarrow>
      (\<exists>its. prefix its (ticker_items enc dec t) \<and> staging K its s s'))"
proof (cases t)
  case (Pair tk node)
  show ?thesis
  proof (cases node)
    case File
    with Pair show ?thesis by (auto simp: process_ticker_def ticker_items_def staging_Nil)
  next
    case (Dir fs)
    have "(for_each (process_file cfg embed_texts nrm enc dec K tk) fs s = Ok s' \<longrightarrow>
              staging K (concat (map (file_items enc dec tk) fs)) s s') \<and>
          (for_each (process_file cfg embed_texts nrm enc dec K tk) fs s = Raise e s' \<longrightarrow>
              (\<exists>its. prefix its (concat (map (file_items enc dec tk) fs)) \<and> staging K its s s'))"
    proof (rule for_each_items[where Q = "staging K"])
      show "\<And>s. staging K [] s s" by (rule staging_Nil)
      show "\<And>a b s s1 s2. staging K a s s1 \<Longrightarrow> staging K b s1 s2 \<Longrightarrow> staging K (a @ b) s s2"
        by (rule staging_append)
      show "\<And>x s s'. x \<in> set fs \<Longrightarrow> process_file cfg embed_texts nrm enc dec K tk x s = Ok s' \<Longrightarrow>
            staging K (file_items enc dec tk x) s s'"
        using process_file_staging by blast
      show "\<And>x s e s'. x \<in> set fs \<Longrightarrow> process_file cfg embed_texts nrm enc dec K tk x s = Raise e s' \<Longrightarrow>
            \<exists>its. prefix its (file_items enc dec tk x) \<and> staging K its s s'"
        using process_file_staging by blast
    qed
    with Pair Dir show ?thesis by (simp add: process_ticker_def ticker_items_def)
  qed
qed

lemma process_ticker_Ok_readable:
  assumes "process_ticker cfg embed_texts nrm enc dec K t s = Ok s'"
  shows "ticker_readable t"
proof (cases t)
  case (Pair tk node)
  show ?thesis
  proof (cases node)
    case File
    with Pair show ?thesis by (simp add: ticker_readable_def)
  next
    case (Dir fs)
    with Pair assms have "for_each (process_file cfg embed_texts nrm enc dec K tk) fs s = Ok s'"
      by (simp add: process_ticker_def)
    then have "list_all file_readable fs"
      by (rule for_each_Ok_all) (rule process_file_Ok_readable)
    with Pair Dir show ?thesis by (simp add: ticker_readable_def)
  qed
qed

lemma process_ticker_skip:
  assumes "ticker_readable t" "item_key ` set (ticker_items enc dec t) \<subseteq> K"
  shows "process_ticker cfg embed_texts nrm enc dec K t s = Ok s"
proof (cases t)
  case (Pair tk node)
  show ?thesis
  proof (cases node)
    case File
    with Pair show ?thesis by (simp add: process_ticker_def)
  next
    case (Dir fs)
    have "for_each (process_file cfg embed_texts nrm enc dec K tk) fs s = Ok s"
    proof (rule for_each_skip)
      fix f :: "string \<times> file_content" and s
      assume f: "f \<in> set fs"
      with assms(1) Pair Dir have r: "file_readable f"
        by (simp add: ticker_readable_def list_all_iff)
      from f assms(2) Pair Dir have "item_key ` set (file_items enc dec tk f) \<subseteq> K"
        by (auto simp: ticker_items_def)
      with r show "process_file cfg embed_texts nrm enc dec K tk f s = Ok s"
        by (rule process_file_skip)
    qed
    with Pair Dir show ?thesis by (simp add: process_ticker_def)
  qed
qed

text \<open>The traversal of the corpus.\<close>

lemma traversal_grows:
  "ends_in (grows s) (for_each (process_ticker cfg embed_texts nrm enc dec K) data_dir s)"
  by (rule for_each_rel[where R = grows]) (auto intro: grows_refl grows_trans process_ticker_grows)

lemma traversal_staging:
  "(for_each (process_ticker cfg embed_texts nrm enc dec K) data_dir s = Ok s' \<longrightarrow>
      staging K (corpus_items enc dec data_dir) s s') \<and>
   (for_each (process_ticker cfg embed_texts nrm enc dec K) data_dir s = Raise e s' \<longrightarrow>
      (\<exists>its. prefix its (corpus_items enc dec data_dir) \<and> staging K its s s'))"
  unfolding corpus_items_def
proof (rule for_each_items[where Q = "staging K"])
  show "\<And>s. staging K [] s s" by (rule staging_Nil)
  show "\<And>a b s s1 s2. staging K a s s1 \<Longrightarrow> staging K b s1 s2 \<Longrightarrow> staging K (a @ b) s s2"
    by (rule staging_append)
  show "\<And>x s s'. x \<in> set data_dir \<Longrightarrow> process_ticker cfg embed_texts nrm enc dec K x s = Ok s' \<Longrightarrow>
        staging K (ticker_items enc dec x) s s'"
    using process_ticker_staging by blast
  show "\<And>x s e s'. x \<in> set data_dir \<Longrightarrow> process_ticker cfg embed_texts nrm enc dec K x s = Raise e s' \<Longrightarrow>
        \<exists>its. prefix its (ticker_items enc dec x) \<and> staging K its s s'"
    using process_ticker_staging by blast
qed

lemma traversal_Ok_readable:
  assumes "for_each (process_ticker cfg embed_texts nrm enc dec K) data_dir s = Ok s'"
  shows "list_all ticker_readable data_dir"
  using assms by (rule for_each_Ok_all) (rule process_ticker_Ok_readable)

lemma traversal_skip:
  assumes "list_all ticker_readable data_dir" "item_key ` set (corpus_items enc dec data_dir) \<subseteq> K"
  shows "for_each (process_ticker cfg embed_texts nrm enc dec K) data_dir s = Ok s"
proof (rule for_each_skip)
  fix t :: "string \<times> dir_entry" and s
  assume t: "t \<in> set data_dir"
  with assms(1) have r: "ticker_readable t" by (simp add: list_all_iff)
  from t assms(2) have "item_key ` set (ticker_items enc dec t) \<subseteq> K"
    by (auto simp: corpus_items_def)
  with r show "process_ticker cfg embed_texts nrm enc dec K t s = Ok s"
    by (rule process_ticker_skip)
qed

lemma initialize_index_shape:
  assumes "initialize_index fs = Inr (ix, md, K, n)"
  shows "K = set (map key_of md) \<and>
         ((\<exists>i. ix = Some i \<and> index_file fs = Some i \<and> metadata_file fs = Some md \<and> md \<noteq> []) \<or>
          (ix = None \<and> md = [] \<and> (metadata_file fs = None \<or> index_file fs = None)))"
  using assms
  by (auto simp: initialize_index_def py_max_def split: option.splits sum.splits list.splits)

lemma start_state_simps:
  "index (start_state ix md n fs c) = ix"
  "metadata (start_state ix md n fs c) = md"
  "next_id (start_state ix md n fs c) = n"
  "current_chunks (start_state ix md n fs c) = []"
  "current_entries (start_state ix md n fs c) = []"
  "total_new_chunks (start_state ix md n fs c) = 0"
  "files (start_state ix md n fs c) = fs"
  "embed_calls (start_state ix md n fs c) = c"
  by (simp_all add: start_state_def)

lemma start_state_balanced: "balanced (start_state ix md n fs c)"
  by (simp add: balanced_def start_state_simps)

lemma start_state_staged: "staged (start_state ix md n fs c) = md"
  by (simp add: staged_def start_state_simps)

lemma flush_remaining_Ok:
  assumes "flush_remaining embed_texts nrm s = Ok s2" "balanced s"
  shows "metadata s2 = staged s"
    and "index_ids (index s2) = index_ids (index s) @ map entry_id (current_entries s)"
    and "files s2 = files s"
    and "total_new_chunks s2 = total_new_chunks s"
    and "current_chunks s = [] \<Longrightarrow> s2 = s"
proof -
  show "current_chunks s = [] \<Longrightarrow> s2 = s" using assms(1) by (simp add: flush_remaining_def)
  have "metadata s2 = staged s \<and>
        index_ids (index s2) = index_ids (index s) @ map entry_id (current_entries s) \<and>
        files s2 = files s \<and> total_new_chunks s2 = total_new_chunks s"
  proof (cases "current_chunks s = []")
    case True
    with assms(2) have "current_entries s = []" by (simp add: balanced_def)
    with True assms(1) show ?thesis by (simp add: flush_remaining_def staged_def)
  next
    case False
    with assms(1) obtain s1 where
      s1: "process_chunk_batch embed_texts nrm (current_chunks s) (current_entries s) s = Ok s1"
      and s2: "s2 = s1\<lparr>processed_chunks := processed_chunks s1 + int (length (current_chunks s1))\<rparr>"
      by (auto simp: flush_remaining_def and_then_Ok_iff)
    from process_chunk_batch_Ok[OF s1 False] obtain ix c where
      "s1 = s\<lparr>embed_calls := c, index := Some ix, metadata := metadata s @ current_entries s\<rparr>"
      "map fst (index_rows ix) = index_ids (index s) @ map entry_id (current_entries s)"
      by blast
    with s2 show ?thesis by (simp add: staged_def index_ids_def)
  qed
  then show "metadata s2 = staged s"
    and "index_ids (index s2) = index_ids (index s) @ map entry_id (current_entries s)"
    and "files s2 = files s"
    and "total_new_chunks s2 = total_new_chunks s"
    by simp_all
qed

lemma flush_remaining_Raise:
  assumes "flush_remaining embed_texts nrm s = Raise e s'"
  shows "\<exists>c. s' = s\<lparr>embed_calls := c\<rparr>"
proof (cases "current_chunks s = []")
  case True
  with assms show ?thesis by (simp add: flush_remaining_def)
next
  case False
  with assms have "process_chunk_batch embed_texts nrm (current_chunks s) (current_entries s) s = Raise e s'"
    by (auto simp: flush_remaining_def and_then_Raise_iff)
  then show ?thesis by (rule process_chunk_batch_Raise)
qed

lemma flush_remaining_not_Diverge: "flush_remaining embed_texts nrm s \<noteq> Diverge"
  using process_chunk_batch_not_Diverge
  by (auto simp: flush_remaining_def and_then_Diverge_iff)

lemma flush_remaining_grows:
  assumes "balanced s"
  shows "ends_in (grows s) (flush_remaining embed_texts nrm s)"
proof (cases "flush_remaining embed_texts nrm s")
  case (Ok s2)
  from flush_remaining_Ok(1-3)[OF Ok assms] have "grows s s2"
    by (auto simp: grows_def staged_def)
  with Ok show ?thesis by simp
next
  case (Raise e s')
  from flush_remaining_Raise[OF Raise] obtain c where "s' = s\<lparr>embed_calls := c\<rparr>" by blast
  then have "grows s s'" by (simp add: grows_def)
  with Raise show ?thesis by simp
next
  case Diverge
  with flush_remaining_not_Diverge show ?thesis by blast
qed

lemma final_save_cases:
  assumes "final_save s = r"
  obtains (nothing) "total_new_chunks s = 0" "r = Ok s"
  | (saved) ix where "total_new_chunks s \<noteq> 0" "index s = Some ix"
      "r = Ok (s\<lparr>files := \<lparr>index_file = Some ix, metadata_file = Some (metadata s)\<rparr>\<rparr>)"
  | (no_index) "total_new_chunks s \<noteq> 0" "index s = None" "r = Raise TypeError s"
proof (cases "total_new_chunks s = 0")
  case True
  with assms have "r = Ok s" by (simp add: final_save_def)
  with True show ?thesis by (rule nothing)
next
  case new: False
  show ?thesis
  proof (cases "index s")
    case None
    with new assms have "r = Raise TypeError s" by (simp add: final_save_def save_index_metadata_eq)
    with new None show ?thesis by (rule no_index)
  next
    case (Some ix)
    with new assms
    have "r = Ok (s\<lparr>files := \<lparr>index_file = Some ix, metadata_file = Some (metadata s)\<rparr>\<rparr>)"
      by (simp add: final_save_def save_index_metadata_eq)
    with new Some show ?thesis by (rule saved)
  qed
qed

lemma final_save_grows: "ends_in (grows s) (final_save s)"
proof -
  obtain r where r: "final_save s = r" by simp
  have "ends_in (grows s) r"
    using r
  proof (cases rule: final_save_cases)
    case nothing
    then show ?thesis by (simp add: grows_refl)
  next
    case (saved ix)
    then show ?thesis by (simp add: grows_def index_ids_def)
  next
    case no_index
    then show ?thesis by (simp add: grows_refl)
  qed
  with r show ?thesis by simp
qed

lemma final_save_metadata:
  "ends_in (\<lambda>s'. metadata s' = metadata s) (final_save s)"
proof -
  obtain r where r: "final_save s = r" by simp
  have "ends_in (\<lambda>s'. metadata s' = metadata s) r"
    using r by (cases rule: final_save_cases) simp_all
  with r show ?thesis by simp
qed

lemma run_ends:
  assumes init: "initialize_index fs = Inr (ix, md, K, n)"
  shows "ends_in (\<lambda>s'. grows (start_state ix md n fs c) s' \<and>
                       run_bound md K n (corpus_items enc dec data_dir) s')
           (update_embeddings cfg embed_texts nrm enc dec data_dir fs c)"
proof -
  let ?s0 = "start_state ix md n fs c"
  let ?items = "corpus_items enc dec data_dir"
  let ?walk = "for_each (process_ticker cfg embed_texts nrm enc dec K) data_dir ?s0"
  let ?P = "\<lambda>s'. grows ?s0 s' \<and> run_bound md K n ?items s'"
  have run: "update_embeddings cfg embed_texts nrm enc dec data_dir fs c =
               and_then (and_then ?walk (flush_remaining embed_texts nrm)) final_save"
    using init by (simp add: update_embeddings_def)
  have g0: "ends_in (grows ?s0) ?walk" by (rule traversal_grows)
  have st: "\<And>s1. ?walk = Ok s1 \<Longrightarrow> staging K ?items ?s0 s1"
    and st': "\<And>e s1. ?walk = Raise e s1 \<Longrightarrow> \<exists>its. prefix its ?items \<and> staging K its ?s0 s1"
    using traversal_staging[of cfg embed_texts nrm enc dec K data_dir ?s0] by blast+
  have bound_of: "\<And>its s1. prefix its ?items \<Longrightarrow> staging K its ?s0 s1 \<Longrightarrow> run_bound md K n ?items s1"
  proof -
    fix its s1
    assume p: "prefix its ?items" and s: "staging K its ?s0 s1"
    from s have "staged s1 = md @ new_entries K n its"
      by (simp add: staging_def start_state_balanced start_state_staged start_state_simps)
    then have "prefix (metadata s1) (md @ new_entries K n its)"
      by (metis staged_def prefixI)
    with p show "run_bound md K n ?items s1" unfolding run_bound_def by blast
  qed
  show ?thesis
  proof (cases ?walk)
    case Diverge
    with g0 show ?thesis by simp
  next
    case (Raise e s1)
    from g0 Raise have "grows ?s0 s1" by simp
    moreover from st'[OF Raise] bound_of have "run_bound md K n ?items s1" by blast
    ultimately show ?thesis using run Raise by simp
  next
    case (Ok s1)
    from g0 Ok have g1: "grows ?s0 s1" by simp
    from st[OF Ok] have stg: "staging K ?items ?s0 s1" .
    then have bal: "balanced s1" and sd: "staged s1 = md @ new_entries K n ?items"
      by (simp_all add: staging_def start_state_balanced start_state_staged start_state_simps)
    from bound_of[OF _ stg] have b1: "run_bound md K n ?items s1" by simp
    have g2: "ends_in (grows s1) (flush_remaining embed_texts nrm s1)"
      by (rule flush_remaining_grows[OF bal])
    show ?thesis
    proof (cases "flush_remaining embed_texts nrm s1")
      case Diverge
      with g2 show ?thesis by simp
    next
      case (Raise e s2)
      from g2 Raise have "grows s1 s2" by simp
      with g1 have "grows ?s0 s2" by (rule grows_trans)
      moreover from flush_remaining_Raise[OF Raise] b1 have "run_bound md K n ?items s2"
        by (auto simp: run_bound_def)
      ultimately show ?thesis using run Ok Raise by simp
    next
      case ok2: (Ok s2)
      from g2 ok2 have "grows s1 s2" by simp
      with g1 have g02: "grows ?s0 s2" by (rule grows_trans)
      from flush_remaining_Ok(1)[OF ok2 bal] sd have m2: "metadata s2 = md @ new_entries K n ?items"
        by simp
      have "ends_in (\<lambda>s'. grows s2 s' \<and> metadata s' = metadata s2) (final_save s2)"
        by (rule ends_in_conj[OF final_save_grows final_save_metadata])
      then have "ends_in ?P (final_save s2)"
      proof (rule ends_in_mono)
        fix s'
        assume a: "grows s2 s' \<and> metadata s' = metadata s2"
        with g02 have "grows ?s0 s'" by (blast intro: grows_trans)
        moreover from a m2 have "run_bound md K n ?items s'"
          unfolding run_bound_def by (intro exI[of _ ?items]) simp
        ultimately show "grows ?s0 s' \<and> run_bound md K n ?items s'" by simp
      qed
      with run Ok ok2 show ?thesis by simp
    qed
  qed
qed

lemma run_Ok:
  assumes init: "initialize_index fs = Inr (ix, md, K, n)"
      and run: "update_embeddings cfg embed_texts nrm enc dec data_dir fs c = Ok s'"
  shows "list_all ticker_readable data_dir"
    and "metadata s' = md @ new_entries K n (corpus_items enc dec data_dir)"
    and "new_entries K n (corpus_items enc dec data_dir) = [] \<Longrightarrow> s' = start_state ix md n fs c"
    and "new_entries K n (corpus_items enc dec data_dir) \<noteq> [] \<Longrightarrow>
           \<exists>i. index s' = Some i \<and>
               files s' = \<lparr>index_file = Some i, metadata_file = Some (metadata s')\<rparr>"
proof -
  let ?s0 = "start_state ix md n fs c"
  let ?items = "corpus_items enc dec data_dir"
  let ?new = "new_entries K n ?items"
  let ?walk = "for_each (process_ticker cfg embed_texts nrm enc dec K) data_dir ?s0"
  from init run obtain s1 s2 where
    walk: "?walk = Ok s1" and flush: "flush_remaining embed_texts nrm s1 = Ok s2"
    and save: "final_save s2 = Ok s'"
    by (auto simp: update_embeddings_def and_then_Ok_iff)
  show readable: "list_all ticker_readable data_dir" using walk by (rule traversal_Ok_readable)
  from traversal_staging[of cfg embed_texts nrm enc dec K data_dir ?s0 s1] walk
  have "staging K ?items ?s0 s1" by simp
  then have bal: "balanced s1" and sd: "staged s1 = md @ ?new"
    and tot: "total_new_chunks s1 = int (length ?new)"
    by (simp_all add: staging_def start_state_balanced start_state_staged start_state_simps)
  have m2: "metadata s2 = md @ ?new"
    using flush_remaining_Ok(1)[OF flush bal] sd by simp
  have t2: "total_new_chunks s2 = int (length ?new)"
    using flush_remaining_Ok(4)[OF flush bal] tot by simp
  have "ends_in (\<lambda>s'. metadata s' = metadata s2) (Ok s')"
    using final_save_metadata[of s2] save by simp
  then show "metadata s' = md @ ?new" using m2 by simp
  show "s' = ?s0" if none: "?new = []"
  proof -
    from none have "item_key ` set ?items \<subseteq> K" by (simp add: new_entries_Nil_iff)
    with readable have "?walk = Ok ?s0" by (rule traversal_skip)
    with walk have s1: "s1 = ?s0" by simp
    have "current_chunks s1 = []" unfolding s1 by (simp add: start_state_simps)
    then have "s2 = s1" by (rule flush_remaining_Ok(5)[OF flush bal])
    then have s2: "s2 = ?s0" using s1 by simp
    have "total_new_chunks s2 = 0" unfolding s2 by (simp add: start_state_simps)
    then have "final_save s2 = Ok s2" by (simp add: final_save_def)
    with save have "s' = s2" by simp
    then show ?thesis using s2 by simp
  qed
  show "\<exists>i. index s' = Some i \<and> files s' = \<lparr>index_file = Some i, metadata_file = Some (metadata s')\<rparr>"
    if some: "?new \<noteq> []"
    using save
  proof (cases rule: final_save_cases)
    case nothing
    note f = this
    from f(1) t2 have "length ?new = 0" by simp
    with some show ?thesis by simp
  next
    case (saved i)
    note f = this
    from f(3) have "s' = s2\<lparr>files := \<lparr>index_file = Some i, metadata_file = Some (metadata s2)\<rparr>\<rparr>"
      by simp
    with f(2) show ?thesis by simp
  next
    case no_index
    note f = this
    from f(3) show ?thesis by simp
  qed
qed

lemma run_init_failure:
  assumes "initialize_index fs = Inl e"
  shows "update_embeddings cfg embed_texts nrm enc dec data_dir fs c = Raise e (start_state None [] 0 fs c)"
  using assms by (simp add: update_embeddings_def)

lemma grows_agree:
  assumes "grows s s'" "ids_agree (index s) (metadata s)" "files_agree (files s)"
  shows "ids_agree (index s') (metadata s') \<and> files_agree (files s')"
proof -
  from assms(1) obtain ext where ext: "metadata s' = metadata s @ ext"
    "index_ids (index s') = index_ids (index s) @ map entry_id ext"
    and f: "files s' = files s \<or>
             (\<exists>ix saved. files s' = \<lparr>index_file = Some ix, metadata_file = Some (metadata s @ saved)\<rparr> \<and>
                prefix saved ext \<and>
                map fst (index_rows ix) = index_ids (index s) @ map entry_id saved)"
    unfolding grows_def by blast
  from ext assms(2) have a: "ids_agree (index s') (metadata s')"
    by (simp add: ids_agree_def)
  from f have b: "files_agree (files s')"
  proof
    assume "files s' = files s"
    with assms(3) show ?thesis by simp
  next
    assume "\<exists>ix saved. files s' = \<lparr>index_file = Some ix, metadata_file = Some (metadata s @ saved)\<rparr> \<and>
                prefix saved ext \<and>
                map fst (index_rows ix) = index_ids (index s) @ map entry_id saved"
    then obtain ix saved where "files s' = \<lparr>index_file = Some ix, metadata_file = Some (metadata s @ saved)\<rparr>"
      "map fst (index_rows ix) = index_ids (index s) @ map entry_id saved"
      by blast
    with assms(2) show ?thesis by (simp add: files_agree_def ids_agree_def index_ids_def)
  qed
  from a b show ?thesis by simp
qed

lemma run_agree:
  assumes "files_agree fs"
  shows "ends_in (\<lambda>s'. ids_agree (index s') (metadata s') \<and> files_agree (files s'))
           (update_embeddings cfg embed_texts nrm enc dec data_dir fs c)"
proof (cases "initialize_index fs")
  case (Inl e)
  with assms show ?thesis
    by (simp add: run_init_failure start_state_simps ids_agree_def index_ids_def)
next
  case (Inr t)
  obtain ix md K n where t: "t = (ix, md, K, n)" by (cases t)
  with Inr have init: "initialize_index fs = Inr (ix, md, K, n)" by simp
  let ?s0 = "start_state ix md n fs c"
  have a0: "ids_agree (index ?s0) (metadata ?s0)"
  proof -
    from initialize_index_shape[OF init] consider
      (loaded) i where "ix = Some i" "index_file fs = Some i" "metadata_file fs = Some md"
      | (fresh) "ix = None" "md = []"
      by blast
    then show ?thesis
    proof cases
      case (loaded i)
      with assms show ?thesis by (simp add: start_state_simps files_agree_def)
    next
      case fresh
      then show ?thesis by (simp add: start_state_simps ids_agree_def index_ids_def)
    qed
  qed
  have f0: "files_agree (files ?s0)" using assms by (simp add: start_state_simps)
  have "ends_in (\<lambda>s'. grows ?s0 s' \<and> run_bound md K n (corpus_items enc dec data_dir) s')
           (update_embeddings cfg embed_texts nrm enc dec data_dir fs c)"
    by (rule run_ends[OF init])
  then show ?thesis
  proof (rule ends_in_mono)
    fix s'
    assume "grows ?s0 s' \<and> run_bound md K n (corpus_items enc dec data_dir) s'"
    then have "grows ?s0 s'" by simp
    from grows_agree[OF this a0 f0]
    show "ids_agree (index s') (metadata s') \<and> files_agree (files s')" .
  qed
qed

text \<open>Keys of what a run stores.\<close>

lemma distinct_append_filter:
  assumes "distinct xs" "distinct ys"
  shows "distinct (xs @ filter (\<lambda>k. k \<notin> set xs) ys)"
  using assms by auto

lemma prefix_map: "prefix xs ys \<Longrightarrow> prefix (map f xs) (map f ys)"
  by (auto simp: prefix_def)

lemma prefix_filter: "prefix xs ys \<Longrightarrow> prefix (filter P xs) (filter P ys)"
  by (auto simp: prefix_def)

lemma prefix_distinct: "prefix xs ys \<Longrightarrow> distinct ys \<Longrightarrow> distinct xs"
  by (auto simp: prefix_def)

lemma new_entries_prefix:
  assumes "prefix its items"
  shows "prefix (new_entries K n its) (new_entries K n items)"
  using assms by (auto simp: prefix_def new_entries_append)

lemma distinct_stored:
  assumes "K = set (map key_of md)" "distinct (map key_of md)" "distinct (map item_key items)"
  shows "distinct (map key_of (md @ new_entries K n items))"
proof -
  have "distinct (map key_of md @ filter (\<lambda>k. k \<notin> set (map key_of md)) (map item_key items))"
    using assms(2,3) by (rule distinct_append_filter)
  then show ?thesis
    unfolding map_append keys_new_entries assms(1) .
qed

lemma run_stored_keys:
  assumes init: "initialize_index fs = Inr (ix, md, K, n)"
      and dk: "distinct (map key_of md)"
      and di: "distinct (map item_key (corpus_items enc dec data_dir))"
  shows "ends_in (\<lambda>s'. \<forall>m. metadata_file (files s') = Some m \<and> index_file (files s') \<noteq> None \<longrightarrow>
                          distinct (map key_of m))
           (update_embeddings cfg embed_texts nrm enc dec data_dir fs c)"
proof -
  let ?s0 = "start_state ix md n fs c"
  let ?items = "corpus_items enc dec data_dir"
  from initialize_index_shape[OF init] have K: "K = set (map key_of md)"
    and loaded: "(\<exists>i. ix = Some i \<and> index_file fs = Some i \<and> metadata_file fs = Some md \<and> md \<noteq> []) \<or>
          (ix = None \<and> md = [] \<and> (metadata_file fs = None \<or> index_file fs = None))"
    by simp_all
  have all: "distinct (map key_of (md @ new_entries K n ?items))"
    by (rule distinct_stored[OF K dk di])
  have "ends_in (\<lambda>s'. grows ?s0 s' \<and> run_bound md K n ?items s')
           (update_embeddings cfg embed_texts nrm enc dec data_dir fs c)"
    by (rule run_ends[OF init])
  then show ?thesis
  proof (rule ends_in_mono)
    fix s'
    assume a: "grows ?s0 s' \<and> run_bound md K n ?items s'"
    then obtain ext where ext: "metadata s' = md @ ext"
      and f: "files s' = fs \<or>
             (\<exists>i saved. files s' = \<lparr>index_file = Some i, metadata_file = Some (md @ saved)\<rparr> \<and>
                prefix saved ext)"
      unfolding grows_def by (auto simp: start_state_simps)
    from a obtain its where its: "prefix its ?items" "prefix (metadata s') (md @ new_entries K n its)"
      unfolding run_bound_def by blast
    from its(1) have "prefix (md @ new_entries K n its) (md @ new_entries K n ?items)"
      by (simp add: new_entries_prefix)
    with its(2) have whole: "prefix (metadata s') (md @ new_entries K n ?items)"
      by (rule prefix_order.trans)
    show "\<forall>m. metadata_file (files s') = Some m \<and> index_file (files s') \<noteq> None \<longrightarrow>
                          distinct (map key_of m)"
    proof (intro allI impI)
      fix m
      assume m: "metadata_file (files s') = Some m \<and> index_file (files s') \<noteq> None"
      from f show "distinct (map key_of m)"
      proof
        assume "files s' = fs"
        with m loaded have "m = md" by auto
        with dk show ?thesis by simp
      next
        assume "\<exists>i saved. files s' = \<lparr>index_file = Some i, metadata_file = Some (md @ saved)\<rparr> \<and>
                prefix saved ext"
        then obtain i saved where "files s' = \<lparr>index_file = Some i, metadata_file = Some (md @ saved)\<rparr>"
          "prefix saved ext" by blast
        with m ext have "prefix m (metadata s')" by auto
        then have "prefix m (md @ new_entries K n ?items)" using whole by (rule prefix_order.trans)
        then have "prefix (map key_of m) (map key_of (md @ new_entries K n ?items))"
          by (rule prefix_map)
        then show ?thesis using all by (rule prefix_distinct)
      qed
    qed
  qed
qed

lemma run_Ok_keys:
  assumes init: "initialize_index fs = Inr (ix, md, K, n)"
      and run: "update_embeddings cfg embed_texts nrm enc dec data_dir fs c = Ok s'"
  shows "item_key ` set (corpus_items enc dec data_dir) \<subseteq> set (map key_of (metadata s'))"
    and "distinct (map key_of md) \<Longrightarrow> distinct (map item_key (corpus_items enc dec data_dir)) \<Longrightarrow>
         distinct (map key_of (metadata s'))"
proof -
  from initialize_index_shape[OF init] have K: "K = set (map key_of md)" by simp
  from run_Ok(2)[OF init run]
  have m: "metadata s' = md @ new_entries K n (corpus_items enc dec data_dir)" .
  show "item_key ` set (corpus_items enc dec data_dir) \<subseteq> set (map key_of (metadata s'))"
    unfolding m by (auto simp: keys_new_entries K)
  show "distinct (map key_of md) \<Longrightarrow> distinct (map item_key (corpus_items enc dec data_dir)) \<Longrightarrow>
         distinct (map key_of (metadata s'))"
    unfolding m by (rule distinct_stored[OF K])
qed

lemma run_skip:
  assumes init: "initialize_index fs = Inr (ix, md, K, n)"
      and readable: "list_all ticker_readable data_dir"
      and keys: "item_key ` set (corpus_items enc dec data_dir) \<subseteq> K"
  shows "update_embeddings cfg embed_texts nrm enc dec data_dir fs c = Ok (start_state ix md n fs c)"
proof -
  let ?s0 = "start_state ix md n fs c"
  have "for_each (process_ticker cfg embed_texts nrm enc dec K) data_dir ?s0 = Ok ?s0"
    using readable keys by (rule traversal_skip)
  moreover have "flush_remaining embed_texts nrm ?s0 = Ok ?s0"
    by (simp add: flush_remaining_def start_state_simps)
  moreover have "final_save ?s0 = Ok ?s0"
    by (simp add: final_save_def start_state_simps)
  ultimately show ?thesis using init by (simp add: update_embeddings_def)
qed

lemma run_Ok_init:
  assumes "update_embeddings cfg embed_texts nrm enc dec data_dir fs c = Ok s'"
  obtains ix md K n where "initialize_index fs = Inr (ix, md, K, n)"
proof (cases "initialize_index fs")
  case (Inl e)
  from run_init_failure[OF Inl, of cfg embed_texts nrm enc dec data_dir c] assms show ?thesis by simp
next
  case (Inr t)
  then show ?thesis using that by (cases t) auto
qed

lemma embedder_failure_propagates:
  assumes "chunks \<noteq> []" "embed_sub_batches embed_texts (embed_calls s) chunks [] = (Inl e, c)"
  shows "process_chunk_batch embed_texts nrm chunks entries s = Raise e (s\<lparr>embed_calls := c\<rparr>)"
  using assms by (simp add: process_chunk_batch_def)

lemma retry_after_failure:
  assumes run1: "update_embeddings cfg embed_texts nrm enc dec data_dir fs c = Raise e s1"
      and run2: "update_embeddings cfg2 embed_texts2 nrm2 enc dec data_dir (files s1) c2 = Ok s2"
      and di: "distinct (map item_key (corpus_items enc dec data_dir))"
      and dk: "\<forall>md. metadata_file fs = Some md \<longrightarrow> distinct (map key_of md)"
  shows "item_key ` set (corpus_items enc dec data_dir) \<subseteq> set (map key_of (metadata s2)) \<and>
         distinct (map key_of (metadata s2)) \<and>
         (\<exists>ix md K n. initialize_index (files s1) = Inr (ix, md, K, n) \<and>
            metadata s2 = md @ new_entries K n (corpus_items enc dec data_dir))"
proof -
  let ?items = "corpus_items enc dec data_dir"
  from run2 obtain ix2 md2 K2 n2 where init2: "initialize_index (files s1) = Inr (ix2, md2, K2, n2)"
    by (rule run_Ok_init)
  have stored: "\<forall>m. metadata_file (files s1) = Some m \<and> index_file (files s1) \<noteq> None \<longrightarrow>
                   distinct (map key_of m)"
  proof (cases "initialize_index fs")
    case (Inl e1)
    from run_init_failure[OF Inl, of cfg embed_texts nrm enc dec data_dir c] run1
    have "files s1 = fs" by (simp add: start_state_simps)
    with dk show ?thesis by simp
  next
    case (Inr t)
    obtain ix1 md1 K1 n1 where "t = (ix1, md1, K1, n1)" by (cases t)
    with Inr have init1: "initialize_index fs = Inr (ix1, md1, K1, n1)" by simp
    from initialize_index_shape[OF init1] dk have "distinct (map key_of md1)" by auto
    from run_stored_keys[OF init1 this di, of cfg embed_texts nrm c] run1 show ?thesis by simp
  qed
  from initialize_index_shape[OF init2] stored have d2: "distinct (map key_of md2)" by auto
  have a: "item_key ` set ?items \<subseteq> set (map key_of (metadata s2))"
    by (rule run_Ok_keys(1)[OF init2 run2])
  have b: "distinct (map key_of (metadata s2))"
    by (rule run_Ok_keys(2)[OF init2 run2 d2 di])
  have c: "metadata s2 = md2 @ new_entries K2 n2 ?items"
    by (rule run_Ok(2)[OF init2 run2])
  from a b c init2 show ?thesis by blast
qed

lemma chunk_text_short:
  assumes "enc txt \<noteq> []" "int (length (enc txt)) \<le> chunk_size"
  shows "chunk_text enc dec txt chunk_size overlap = Some [dec (enc txt)]"
  using assms
  by (simp add: chunk_text_def chunk_loop.simps[of _ _ _ _ 0] Let_def py_slice_whole min_def)

lemma sample_chunks:
  "chunk_text char_enc char_dec ''alpha'' CHUNK_SIZE CHUNK_OVERLAP = Some [''alpha'']"
  "chunk_text char_enc char_dec ''beta'' CHUNK_SIZE CHUNK_OVERLAP = Some [''beta'']"
  by (simp_all add: chunk_text_short char_dec_enc length_char_enc char_enc_Nil_iff CHUNK_SIZE_def)

lemmas sample_defs =
  sample_filing_def sample_entry_def sample_index_def unit_embedder_def
  flaky_embedder_def eager_config_def no_files_def sample_state_def sample_interrupted_def

lemmas step_defs =
  process_file_def endswith_def enumerate_eq_zip stage_chunk_def start_state_def Let_def
  process_chunk_batch_def embed_sub_batches.simps BATCH_SIZE_def
  build_empty_faiss_def add_with_ids_def in_int64_def
  save_index_metadata_def write_index_def write_metadata_def

lemma first_filing:
  assumes "embed_texts = unit_embedder \<or> embed_texts = flaky_embedder"
  shows "process_file eager_config embed_texts (\<lambda>v. v) char_enc char_dec {} ''AAPL''
     (''A1.json'', Filing (sample_filing ''A1'' ''alpha'')) (start_state None [] 0 no_files 0) =
   Ok (sample_state [sample_entry 0 ''A1''] 1 1 1)"
  using assms by (auto simp: step_defs sample_defs sample_chunks)

lemma second_filing:
  "process_file eager_config unit_embedder (\<lambda>v. v) char_enc char_dec K ''AAPL''
     (''A2.json'', Filing (sample_filing ''A2'' ''beta'')) (sample_state [sample_entry 0 ''A1''] 1 t c) =
   (if (''AAPL'', Some ''A2'', 0) \<in> K then Ok (sample_state [sample_entry 0 ''A1''] 1 t c)
    else Ok (sample_state [sample_entry 0 ''A1'', sample_entry 1 ''A2''] 2 (t + 1) (c + 1)))"
  by (simp add: step_defs sample_defs sample_chunks)

lemma second_filing_interrupted:
  "process_file eager_config flaky_embedder (\<lambda>v. v) char_enc char_dec {} ''AAPL''
     (''A2.json'', Filing (sample_filing ''A2'' ''beta'')) (sample_state [sample_entry 0 ''A1''] 1 1 (Suc 0)) =
   Raise (EmbedderError ''timeout'') sample_interrupted"
  by (simp add: step_defs sample_defs sample_chunks)

lemma first_filing_skipped:
  "process_file cfg embed_texts nrm char_enc char_dec {(''AAPL'', Some ''A1'', 0)} ''AAPL''
     (''A1.json'', Filing (sample_filing ''A1'' ''alpha'')) s = Ok s"
  by (simp add: process_file_def endswith_def enumerate_eq_zip stage_chunk_def sample_filing_def sample_chunks)

lemma sample_run:
  "update_embeddings eager_config unit_embedder (\<lambda>v. v) char_enc char_dec sample_corpus no_files 0
     = Ok (sample_state [sample_entry 0 ''A1'', sample_entry 1 ''A2''] 2 2 2)"
proof -
  have "initialize_index no_files = Inr (None, [], {}, 0)"
    by (simp add: initialize_index_def no_files_def)
  moreover have "for_each (process_ticker eager_config unit_embedder (\<lambda>v. v) char_enc char_dec {})
          sample_corpus (start_state None [] 0 no_files 0) =
        Ok (sample_state [sample_entry 0 ''A1'', sample_entry 1 ''A2''] 2 2 2)"
    by (simp add: sample_corpus_def process_ticker_def first_filing second_filing numeral_2_eq_2)
  ultimately show ?thesis
    by (simp add: update_embeddings_def flush_remaining_def final_save_def save_index_metadata_def
          write_index_def write_metadata_def sample_state_def)
qed

lemma sample_run_interrupted:
  "update_embeddings eager_config flaky_embedder (\<lambda>v. v) char_enc char_dec sample_corpus no_files 0
     = Raise (EmbedderError ''timeout'') sample_interrupted"
proof -
  have "initialize_index no_files = Inr (None, [], {}, 0)"
    by (simp add: initialize_index_def no_files_def)
  moreover have "for_each (process_ticker eager_config flaky_embedder (\<lambda>v. v) char_enc char_dec {})
          sample_corpus (start_state None [] 0 no_files 0) =
        Raise (EmbedderError ''timeout'') sample_interrupted"
    by (simp add: sample_corpus_def process_ticker_def first_filing second_filing_interrupted)
  ultimately show ?thesis by (simp add: update_embeddings_def)
qed

lemma sample_interrupted_files:
  "files sample_interrupted =
     \<lparr>index_file = Some (sample_index [0]), metadata_file = Some [sample_entry 0 ''A1'']\<rparr>"
  by (simp add: sample_interrupted_def sample_state_def sample_entry_def)

lemma sample_retry:
  "update_embeddings eager_config unit_embedder (\<lambda>v. v) char_enc char_dec sample_corpus
     (files sample_interrupted) 2
     = Ok (sample_state [sample_entry 0 ''A1'', sample_entry 1 ''A2''] 2 1 3)"
proof -
  have init: "initialize_index (files sample_interrupted) =
          Inr (Some (sample_index [0]), [sample_entry 0 ''A1''], {(''AAPL'', Some ''A1'', 0)}, 1)"
    by (simp add: sample_interrupted_files initialize_index_def py_max_def key_of_def sample_entry_def)
  have start: "start_state (Some (sample_index [0])) [sample_entry 0 ''A1''] 1 (files sample_interrupted) 2 =
          sample_state [sample_entry 0 ''A1''] 1 0 2"
    by (simp add: sample_interrupted_files start_state_def sample_state_def sample_entry_def)
  have "for_each (process_ticker eager_config unit_embedder (\<lambda>v. v) char_enc char_dec
            {(''AAPL'', Some ''A1'', 0)})
          sample_corpus (sample_state [sample_entry 0 ''A1''] 1 0 2) =
        Ok (sample_state [sample_entry 0 ''A1'', sample_entry 1 ''A2''] 2 1 3)"
    by (simp add: sample_corpus_def process_ticker_def first_filing_skipped second_filing numeral_3_eq_3 numeral_2_eq_2)
  with init start show ?thesis
    by (simp add: update_embeddings_def flush_remaining_def final_save_def save_index_metadata_def
          write_index_def write_metadata_def sample_state_def)
qed

section \<open>The retriever and the claims\<close>

lemma process_chunk_batch_Raise_frame:
  assumes "process_chunk_batch embed_texts nrm chunks entries s = Raise e s'"
  shows "index s' = index s \<and> metadata s' = metadata s \<and> files s' = files s"
proof -
  from process_chunk_batch_Raise[OF assms] obtain c where "s' = s\<lparr>embed_calls := c\<rparr>" by blast
  then show ?thesis by simp
qed

lemma process_chunk_batch_Ok_rows:
  assumes "process_chunk_batch embed_texts nrm chunks entries s = Ok s'" "chunks \<noteq> []"
  shows "\<exists>vs c ix'.
           embed_sub_batches embed_texts (embed_calls s) chunks [] = (Inr vs, c) \<and>
           length vs = length entries \<and>
           s' = s\<lparr>embed_calls := c, index := Some ix', metadata := metadata s @ entries\<rparr> \<and>
           index_rows ix' =
             (case index s of None \<Rightarrow> [] | Some ix \<Rightarrow> index_rows ix) @
             zip (map entry_id entries) (map nrm vs)"
  using assms
  by (auto simp: process_chunk_batch_def Let_def add_with_ids_def build_empty_faiss_def
           split: if_splits prod.splits sum.splits list.splits option.splits)

lemma save_index_metadata_frame:
  assumes "save_index_metadata s = Ok s' \<or> save_index_metadata s = Raise e s'"
  shows "index s' = index s \<and> metadata s' = metadata s"
  using assms by (cases "index s") (auto simp: save_index_metadata_eq)

lemma save_index_metadata_files:
  assumes "save_index_metadata s = Ok s'"
  shows "index_file (files s') = index s \<and> metadata_file (files s') = Some (metadata s)"
  using assms by (cases "index s") (auto simp: save_index_metadata_eq)

lemma run_extends:
  assumes "initialize_index fs = Inr (ix, md, K, n)"
  shows "ends_in (\<lambda>s'. \<exists>ext. metadata s' = md @ ext \<and>
                          index_ids (index s') = index_ids ix @ map entry_id ext)
           (update_embeddings cfg embed_texts nrm enc dec data_dir fs c)"
proof -
  have "ends_in (\<lambda>s'. grows (start_state ix md n fs c) s' \<and>
                       run_bound md K n (corpus_items enc dec data_dir) s')
           (update_embeddings cfg embed_texts nrm enc dec data_dir fs c)"
    by (rule run_ends[OF assms])
  then show ?thesis
  proof (rule ends_in_mono)
    fix s'
    assume "grows (start_state ix md n fs c) s' \<and> run_bound md K n (corpus_items enc dec data_dir) s'"
    then show "\<exists>ext. metadata s' = md @ ext \<and> index_ids (index s') = index_ids ix @ map entry_id ext"
      by (auto simp: grows_def start_state_simps)
  qed
qed

lemma sample_disagree:
  "\<not> files_agree \<lparr>index_file = Some (sample_index [0, 1]), metadata_file = Some [sample_entry 0 ''A1'']\<rparr>"
  by (simp add: files_agree_def ids_agree_def index_ids_def sample_index_def sample_entry_def)

lemma flush_remaining_Raise_frame:
  assumes "flush_remaining embed_texts nrm s = Raise e s'"
  shows "index s' = index s \<and> metadata s' = metadata s \<and> files s' = files s"
proof -
  from flush_remaining_Raise[OF assms] obtain c where "s' = s\<lparr>embed_calls := c\<rparr>" by blast
  then show ?thesis by simp
qed

lemma sample_items:
  "corpus_items char_enc char_dec sample_corpus =
     [(''AAPL'', sample_filing ''A1'' ''alpha'', 0, ''alpha''),
      (''AAPL'', sample_filing ''A2'' ''beta'', 0, ''beta'')]"
  by (simp add: corpus_items_def ticker_items_def file_items_def sample_corpus_def endswith_def
        default_chunks_def sample_chunks sample_filing_def enumerate_eq_zip)

lemma sample_items_distinct:
  "distinct (map item_key (corpus_items char_enc char_dec sample_corpus))"
  by (simp add: sample_items item_key_def sample_filing_def)

lemma py_index_in_range:
  assumes "0 \<le> i" "i < int (length xs)"
  shows "py_index xs i = Inr (xs ! nat i)"
  using assms by (simp add: py_index_def)

lemma retrieve_hit_out_of_range:
  assumes "vid < 0 \<or> int (length md) \<le> vid"
  shows "retrieve_hit enc dec data_dir md (sc, vid) st = Ok st"
  using assms by (auto simp: retrieve_hit_def)

lemma retrieve_hit_in_range:
  assumes "0 \<le> vid" "vid < int (length md)"
  shows "retrieve_hit enc dec data_dir md (sc, vid) st =
           rehydrate_hit enc dec data_dir (md ! nat vid) sc st"
  using assms by (simp add: retrieve_hit_def py_index_in_range)

lemma retrieve_hits_filter:
  "for_each (retrieve_hit enc dec data_dir md) results st =
   for_each (retrieve_hit enc dec data_dir md)
     (filter (\<lambda>r. 0 \<le> snd r \<and> snd r < int (length md)) results) st"
proof (induction results arbitrary: st)
  case Nil
  show ?case by simp
next
  case (Cons r results)
  obtain sc vid where r: "r = (sc, vid)" by (cases r)
  show ?case
  proof (cases "0 \<le> vid \<and> vid < int (length md)")
    case True
    with r show ?thesis
      by (cases "retrieve_hit enc dec data_dir md (sc, vid) st") (simp_all add: Cons.IH)
  next
    case False
    then have "vid < 0 \<or> int (length md) \<le> vid" by linarith
    from retrieve_hit_out_of_range[OF this] False r show ?thesis
      by (simp add: Cons.IH)
  qed
qed



text \<open>
  C1, as the claim states it, fails: a persisted index with two vectors (ids 0 and 1) beside
  a metadata log with one entry (id 0) disagrees on the count and on the largest id, and
  \<open>initialize_index\<close> returns it as the store, with \<open>next_id = 1\<close>.
\<close>

theorem initialize_index_no_corrupt_state:
  "initialize_index
     \<lparr>index_file = Some (sample_index [0, 1]), metadata_file = Some [sample_entry 0 ''A1'']\<rparr> =
   Inr (Some (sample_index [0, 1]), [sample_entry 0 ''A1''], {(''AAPL'', Some ''A1'', 0)}, 1) \<and>
   \<not> files_agree
     \<lparr>index_file = Some (sample_index [0, 1]), metadata_file = Some [sample_entry 0 ''A1'']\<rparr>"
  using sample_disagree by (simp add: initialize_index_def py_max_def key_of_def sample_entry_def)

text \<open>
  C1, amended. \<open>initialize_index\<close> compares nothing: when both files exist and the
  metadata log is not empty, it returns the loaded index and the loaded log as they are,
  with the keys of the log and \<open>next_id\<close> one above the largest id of the log.
\<close>

theorem initialize_index_loads_unchecked:
  assumes "metadata_file fs = Some md" "index_file fs = Some ix" "md \<noteq> []"
  shows "initialize_index fs =
           Inr (Some ix, md, set (map key_of md), Max (set (map entry_id md)) + 1)"
  using assms by (rule initialize_index_loaded)

theorem initialize_index_loads_unchecked_witness:
  "metadata_file \<lparr>index_file = Some (sample_index [0, 1]), metadata_file = Some [sample_entry 0 ''A1'']\<rparr>
     = Some [sample_entry 0 ''A1''] \<and>
   index_file \<lparr>index_file = Some (sample_index [0, 1]), metadata_file = Some [sample_entry 0 ''A1'']\<rparr>
     = Some (sample_index [0, 1]) \<and>
   [sample_entry 0 ''A1''] \<noteq> [] \<and>
   initialize_index
     \<lparr>index_file = Some (sample_index [0, 1]), metadata_file = Some [sample_entry 0 ''A1'']\<rparr> =
   Inr (Some (sample_index [0, 1]), [sample_entry 0 ''A1''],
        set (map key_of [sample_entry 0 ''A1'']), Max (set (map entry_id [sample_entry 0 ''A1''])) + 1)"
  using initialize_index_loads_unchecked
    [of "\<lparr>index_file = Some (sample_index [0, 1]), metadata_file = Some [sample_entry 0 ''A1'']\<rparr>"
        "[sample_entry 0 ''A1'']" "sample_index [0, 1]"]
  by simp

text \<open>
  C2. After a run of \<open>update_embeddings\<close> that returned, a second run over the same
  corpus from the files the first one left finds the key of every chunk of the corpus in
  the keys it loads, makes no embedding call, and returns with the loaded index and log,
  no new chunk and the files unchanged.
\<close>

theorem update_embeddings_idempotent:
  assumes "update_embeddings cfg embed_texts nrm enc dec data_dir fs c = Ok s1"
  shows "\<exists>ix md K n s2.
           initialize_index (files s1) = Inr (ix, md, K, n) \<and>
           item_key ` set (corpus_items enc dec data_dir) \<subseteq> K \<and>
           update_embeddings cfg2 embed_texts2 nrm2 enc dec data_dir (files s1) c2 = Ok s2 \<and>
           embed_calls s2 = c2 \<and> index s2 = ix \<and> metadata s2 = md \<and>
           total_new_chunks s2 = 0 \<and> files s2 = files s1"
proof -
  let ?items = "corpus_items enc dec data_dir"
  from assms obtain ix1 md1 K1 n1 where init1: "initialize_index fs = Inr (ix1, md1, K1, n1)"
    by (rule run_Ok_init)
  have readable: "list_all ticker_readable data_dir" by (rule run_Ok(1)[OF init1 assms])
  have "\<exists>ix md K n. initialize_index (files s1) = Inr (ix, md, K, n) \<and> item_key ` set ?items \<subseteq> K"
  proof (cases "new_entries K1 n1 ?items = []")
    case True
    from run_Ok(3)[OF init1 assms True] have "files s1 = fs" by (simp add: start_state_simps)
    moreover from True have "item_key ` set ?items \<subseteq> K1" by (simp add: new_entries_Nil_iff)
    ultimately show ?thesis using init1 by auto
  next
    case False
    from run_Ok(4)[OF init1 assms False] obtain i where
      f: "files s1 = \<lparr>index_file = Some i, metadata_file = Some (metadata s1)\<rparr>" by blast
    from run_Ok(2)[OF init1 assms] False have ne: "metadata s1 \<noteq> []" by simp
    from f have "metadata_file (files s1) = Some (metadata s1)" "index_file (files s1) = Some i"
      by simp_all
    from initialize_index_loaded[OF this ne]
    have "initialize_index (files s1) =
            Inr (Some i, metadata s1, set (map key_of (metadata s1)), Max (set (map entry_id (metadata s1))) + 1)" .
    moreover have "item_key ` set ?items \<subseteq> set (map key_of (metadata s1))"
      by (rule run_Ok_keys(1)[OF init1 assms])
    ultimately show ?thesis by blast
  qed
  then obtain ix md K n where init2: "initialize_index (files s1) = Inr (ix, md, K, n)"
    and keys: "item_key ` set ?items \<subseteq> K" by blast
  from run_skip[OF init2 readable keys, of cfg2 embed_texts2 nrm2 c2]
  have "update_embeddings cfg2 embed_texts2 nrm2 enc dec data_dir (files s1) c2 =
          Ok (start_state ix md n (files s1) c2)" .
  with init2 keys show ?thesis by (auto simp: start_state_simps)
qed

theorem update_embeddings_idempotent_witness:
  "update_embeddings eager_config unit_embedder (\<lambda>v. v) char_enc char_dec sample_corpus no_files 0 =
     Ok (sample_state [sample_entry 0 ''A1'', sample_entry 1 ''A2''] 2 2 2) \<and>
   (\<exists>ix md K n s2.
       initialize_index (files (sample_state [sample_entry 0 ''A1'', sample_entry 1 ''A2''] 2 2 2)) =
         Inr (ix, md, K, n) \<and>
       item_key ` set (corpus_items char_enc char_dec sample_corpus) \<subseteq> K \<and>
       update_embeddings eager_config flaky_embedder (\<lambda>v. v) char_enc char_dec sample_corpus
         (files (sample_state [sample_entry 0 ''A1'', sample_entry 1 ''A2''] 2 2 2)) 7 = Ok s2 \<and>
       embed_calls s2 = 7 \<and> index s2 = ix \<and> metadata s2 = md \<and> total_new_chunks s2 = 0 \<and>
       files s2 = files (sample_state [sample_entry 0 ''A1'', sample_entry 1 ''A2''] 2 2 2))"
  using update_embeddings_idempotent[OF sample_run, of eager_config flaky_embedder "\<lambda>v. v" 7] sample_run
  by simp

text \<open>
  C3. A flush of an empty batch changes nothing. A flush of a non-empty batch that returns
  has embedded the chunks, got one vector for each entry of the batch, appended to the
  rows of the index the pairs of each entry's id with its (normalised) vector, in order,
  and appended the entries of the batch to the metadata log, changing nothing else but
  the count of embedding calls: the ids of the index have grown by exactly the ids of the
  entries added to the log, and if the ids of index and log were the same set before,
  they are after. A flush that raises has changed neither the index nor the log nor the
  files. A persist, returning or raising, changes neither the index nor the log, and when
  it returns the two files hold them. A whole run, returning or raising, ends with the
  loaded log and the loaded index extended by the same entries; started from files that
  agree (or from no store) it ends with the ids of index and log the same set, and when it
  returns the files agree as well.
\<close>

theorem index_and_metadata_extended_together:
  "process_chunk_batch embed_texts nrm [] entries s = Ok s \<and>
   (chunks \<noteq> [] \<and> process_chunk_batch embed_texts nrm chunks entries s = Ok s' \<longrightarrow>
      (\<exists>vs c ix'.
          embed_sub_batches embed_texts (embed_calls s) chunks [] = (Inr vs, c) \<and>
          length vs = length entries \<and>
          s' = s\<lparr>embed_calls := c, index := Some ix', metadata := metadata s @ entries\<rparr> \<and>
          index_rows ix' =
            (case index s of None \<Rightarrow> [] | Some i \<Rightarrow> index_rows i) @
            zip (map entry_id entries) (map nrm vs)) \<and>
      index_ids (index s') = index_ids (index s) @ map entry_id entries \<and>
      (ids_agree (index s) (metadata s) \<longrightarrow> ids_agree (index s') (metadata s'))) \<and>
   (process_chunk_batch embed_texts nrm chunks entries s = Raise e s' \<longrightarrow>
      index s' = index s \<and> metadata s' = metadata s \<and> files s' = files s) \<and>
   (save_index_metadata s = Ok s' \<or> save_index_metadata s = Raise e s' \<longrightarrow>
      index s' = index s \<and> metadata s' = metadata s) \<and>
   (save_index_metadata s = Ok s' \<longrightarrow>
      index_file (files s') = index s \<and> metadata_file (files s') = Some (metadata s)) \<and>
   (initialize_index fs = Inr (ix, md, K, n) \<longrightarrow>
      ends_in (\<lambda>s'. \<exists>ext. metadata s' = md @ ext \<and>
                         index_ids (index s') = index_ids ix @ map entry_id ext)
        (update_embeddings cfg embed_texts nrm enc dec data_dir fs c)) \<and>
   (files_agree fs \<longrightarrow>
      ends_in (\<lambda>s'. ids_agree (index s') (metadata s'))
        (update_embeddings cfg embed_texts nrm enc dec data_dir fs c)) \<and>
   (files_agree fs \<and> update_embeddings cfg embed_texts nrm enc dec data_dir fs c = Ok s' \<longrightarrow>
      files_agree (files s'))"
proof (intro conjI impI)
  show "process_chunk_batch embed_texts nrm [] entries s = Ok s"
    by (rule process_chunk_batch_Ok_empty)
next
  assume a: "chunks \<noteq> [] \<and> process_chunk_batch embed_texts nrm chunks entries s = Ok s'"
  then have ne: "chunks \<noteq> []"
    and ok: "process_chunk_batch embed_texts nrm chunks entries s = Ok s'" by simp_all
  show "\<exists>vs c ix'.
          embed_sub_batches embed_texts (embed_calls s) chunks [] = (Inr vs, c) \<and>
          length vs = length entries \<and>
          s' = s\<lparr>embed_calls := c, index := Some ix', metadata := metadata s @ entries\<rparr> \<and>
          index_rows ix' =
            (case index s of None \<Rightarrow> [] | Some i \<Rightarrow> index_rows i) @
            zip (map entry_id entries) (map nrm vs)"
    by (rule process_chunk_batch_Ok_rows[OF ok ne])
  from process_chunk_batch_Ok[OF ok ne] obtain i c where
    s': "s' = s\<lparr>embed_calls := c, index := Some i, metadata := metadata s @ entries\<rparr>"
    and ids: "map fst (index_rows i) = index_ids (index s) @ map entry_id entries"
    by blast
  from s' ids show "index_ids (index s') = index_ids (index s) @ map entry_id entries"
    by (simp add: index_ids_def)
  assume "ids_agree (index s) (metadata s)"
  with s' ids show "ids_agree (index s') (metadata s')"
    by (simp add: ids_agree_def index_ids_def)
next
  assume "process_chunk_batch embed_texts nrm chunks entries s = Raise e s'"
  from process_chunk_batch_Raise_frame[OF this]
  show "index s' = index s" "metadata s' = metadata s" "files s' = files s" by simp_all
next
  assume "save_index_metadata s = Ok s' \<or> save_index_metadata s = Raise e s'"
  from save_index_metadata_frame[OF this]
  show "index s' = index s" "metadata s' = metadata s" by simp_all
next
  assume "save_index_metadata s = Ok s'"
  from save_index_metadata_files[OF this]
  show "index_file (files s') = index s" "metadata_file (files s') = Some (metadata s)"
    by simp_all
next
  assume "initialize_index fs = Inr (ix, md, K, n)"
  then show "ends_in (\<lambda>s'. \<exists>ext. metadata s' = md @ ext \<and>
                         index_ids (index s') = index_ids ix @ map entry_id ext)
        (update_embeddings cfg embed_texts nrm enc dec data_dir fs c)"
    by (rule run_extends)
next
  assume "files_agree fs"
  from run_agree[OF this, of cfg embed_texts nrm enc dec data_dir c]
  show "ends_in (\<lambda>s'. ids_agree (index s') (metadata s'))
        (update_embeddings cfg embed_texts nrm enc dec data_dir fs c)"
    by (rule ends_in_mono) simp
next
  assume "files_agree fs \<and> update_embeddings cfg embed_texts nrm enc dec data_dir fs c = Ok s'"
  then have f: "files_agree fs"
    and ok: "update_embeddings cfg embed_texts nrm enc dec data_dir fs c = Ok s'" by simp_all
  from run_agree[OF f, of cfg embed_texts nrm enc dec data_dir c] ok
  show "files_agree (files s')" by simp
qed

theorem index_and_metadata_extended_together_witness:
  "process_chunk_batch unit_embedder (\<lambda>v. v) [''alpha''] [sample_entry 0 ''A1'']
     (start_state None [] 0 no_files 0) =
     Ok ((sample_state [sample_entry 0 ''A1''] 0 0 1)\<lparr>files := no_files\<rparr>) \<and>
   (\<exists>vs c ix'.
       embed_sub_batches unit_embedder (embed_calls (start_state None [] 0 no_files 0))
         [''alpha''] [] = (Inr vs, c) \<and>
       length vs = length [sample_entry 0 ''A1''] \<and>
       (sample_state [sample_entry 0 ''A1''] 0 0 1)\<lparr>files := no_files\<rparr> =
         (start_state None [] 0 no_files 0)
           \<lparr>embed_calls := c, index := Some ix',
             metadata := metadata (start_state None [] 0 no_files 0) @ [sample_entry 0 ''A1'']\<rparr> \<and>
       index_rows ix' =
         (case index (start_state None [] 0 no_files 0) of None \<Rightarrow> [] | Some i \<Rightarrow> index_rows i) @
         zip (map entry_id [sample_entry 0 ''A1'']) (map (\<lambda>v. v) vs)) \<and>
   index_ids (index ((sample_state [sample_entry 0 ''A1''] 0 0 1)\<lparr>files := no_files\<rparr>)) = [0] \<and>
   save_index_metadata ((sample_state [sample_entry 0 ''A1''] 0 0 1)\<lparr>files := no_files\<rparr>) =
     Ok (sample_state [sample_entry 0 ''A1''] 0 0 1) \<and>
   index_file (files (sample_state [sample_entry 0 ''A1''] 0 0 1)) = Some (sample_index [0]) \<and>
   metadata_file (files (sample_state [sample_entry 0 ''A1''] 0 0 1)) = Some [sample_entry 0 ''A1''] \<and>
   files_agree no_files \<and>
   update_embeddings eager_config unit_embedder (\<lambda>v. v) char_enc char_dec sample_corpus no_files 0 =
     Ok (sample_state [sample_entry 0 ''A1'', sample_entry 1 ''A2''] 2 2 2) \<and>
   ids_agree (Some (sample_index [0, 1])) [sample_entry 0 ''A1'', sample_entry 1 ''A2''] \<and>
   files_agree (files (sample_state [sample_entry 0 ''A1'', sample_entry 1 ''A2''] 2 2 2)) \<and>
   update_embeddings eager_config flaky_embedder (\<lambda>v. v) char_enc char_dec sample_corpus no_files 0 =
     Raise (EmbedderError ''timeout'') sample_interrupted \<and>
   ids_agree (index sample_interrupted) (metadata sample_interrupted)"
proof -
  let ?s0 = "start_state None [] 0 no_files 0"
  let ?s1 = "(sample_state [sample_entry 0 ''A1''] 0 0 1)\<lparr>files := no_files\<rparr>"
  let ?s2 = "sample_state [sample_entry 0 ''A1''] 0 0 1"
  let ?s3 = "sample_state [sample_entry 0 ''A1'', sample_entry 1 ''A2''] 2 2 2"
  have flush: "process_chunk_batch unit_embedder (\<lambda>v. v) [''alpha''] [sample_entry 0 ''A1''] ?s0 = Ok ?s1"
    by (simp add: process_chunk_batch_def embed_sub_batches.simps BATCH_SIZE_def unit_embedder_def
          build_empty_faiss_def add_with_ids_def in_int64_def start_state_def sample_state_def
          sample_index_def sample_entry_def Let_def)
  have persist: "save_index_metadata ?s1 = Ok ?s2"
    by (simp add: save_index_metadata_eq sample_state_def)
  have h: "files_agree no_files" by (simp add: files_agree_def no_files_def)
  have ne: "[''alpha''] \<noteq> []" by simp
  from index_and_metadata_extended_together
         [of unit_embedder "\<lambda>v. v" "[sample_entry 0 ''A1'']" ?s0 "[''alpha'']" ?s1]
       flush ne
  have a: "(\<exists>vs c ix'.
       embed_sub_batches unit_embedder (embed_calls ?s0) [''alpha''] [] = (Inr vs, c) \<and>
       length vs = length [sample_entry 0 ''A1''] \<and>
       ?s1 = ?s0\<lparr>embed_calls := c, index := Some ix',
                  metadata := metadata ?s0 @ [sample_entry 0 ''A1'']\<rparr> \<and>
       index_rows ix' =
         (case index ?s0 of None \<Rightarrow> [] | Some i \<Rightarrow> index_rows i) @
         zip (map entry_id [sample_entry 0 ''A1'']) (map (\<lambda>v. v) vs)) \<and>
     index_ids (index ?s1) = index_ids (index ?s0) @ map entry_id [sample_entry 0 ''A1'']"
    by blast
  from index_and_metadata_extended_together
         [of unit_embedder "\<lambda>v. v" "[sample_entry 0 ''A1'']" ?s1 "[''alpha'']" ?s2]
       persist
  have b: "index_file (files ?s2) = index ?s1 \<and> metadata_file (files ?s2) = Some (metadata ?s1)"
    by blast
  from index_and_metadata_extended_together
         [of unit_embedder "\<lambda>v. v" _ _ _ ?s3 _ no_files _ _ _ _ eager_config char_enc char_dec
             sample_corpus 0]
       h sample_run
  have c: "ends_in (\<lambda>s'. ids_agree (index s') (metadata s')) (Ok ?s3) \<and> files_agree (files ?s3)"
    by simp
  from index_and_metadata_extended_together
         [of flaky_embedder "\<lambda>v. v" _ _ _ _ _ no_files _ _ _ _ eager_config char_enc char_dec
             sample_corpus 0]
       h sample_run_interrupted
  have d: "ends_in (\<lambda>s'. ids_agree (index s') (metadata s'))
             (Raise (EmbedderError ''timeout'') sample_interrupted)"
    by simp
  from a have a1: "index_ids (index ?s1) = [0]"
    by (simp add: start_state_def index_ids_def sample_entry_def)
  from b have b': "index_file (files ?s2) = Some (sample_index [0]) \<and>
                   metadata_file (files ?s2) = Some [sample_entry 0 ''A1'']"
    by (simp add: sample_state_def sample_entry_def)
  from c have c': "ids_agree (Some (sample_index [0, 1])) [sample_entry 0 ''A1'', sample_entry 1 ''A2''] \<and>
                   files_agree (files ?s3)"
    by (simp add: sample_state_def sample_entry_def)
  from d have d': "ids_agree (index sample_interrupted) (metadata sample_interrupted)" by simp
  from a have a2: "\<exists>vs c ix'.
       embed_sub_batches unit_embedder (embed_calls ?s0) [''alpha''] [] = (Inr vs, c) \<and>
       length vs = length [sample_entry 0 ''A1''] \<and>
       ?s1 = ?s0\<lparr>embed_calls := c, index := Some ix',
                  metadata := metadata ?s0 @ [sample_entry 0 ''A1'']\<rparr> \<and>
       index_rows ix' =
         (case index ?s0 of None \<Rightarrow> [] | Some i \<Rightarrow> index_rows i) @
         zip (map entry_id [sample_entry 0 ''A1'']) (map (\<lambda>v. v) vs)"
    by (rule conjunct1)
  show ?thesis
    by (intro conjI) (rule flush a2 a1 persist b'[THEN conjunct1] b'[THEN conjunct2] h sample_run
          c'[THEN conjunct1] c'[THEN conjunct2] sample_run_interrupted d')+
qed




text \<open>
  C8. When an embedding call of a flush fails, \<open>process_chunk_batch\<close> raises that error
  with index, log and files as they were; a staging step or a final flush that raises
  leaves index, log and files as they were, so the files are those of the last persist; and
  a retry from those files that returns has stored the key of every chunk of the corpus,
  each once, by adding to the loaded log the entries of the chunks whose keys the loaded
  log lacks (for a corpus and an initial log without repeated keys).
\<close>

theorem embedder_failure_leaves_store:
  "(chunks \<noteq> [] \<and> embed_sub_batches embed_texts (embed_calls s) chunks [] = (Inl e, c) \<longrightarrow>
      process_chunk_batch embed_texts nrm chunks entries s = Raise e (s\<lparr>embed_calls := c\<rparr>)) \<and>
   (stage_chunk cfg embed_texts nrm K tk rcd (idx, chunk) s = Raise e s' \<longrightarrow>
      index s' = index s \<and> metadata s' = metadata s \<and> files s' = files s) \<and>
   (flush_remaining embed_texts nrm s = Raise e s' \<longrightarrow>
      index s' = index s \<and> metadata s' = metadata s \<and> files s' = files s) \<and>
   (update_embeddings cfg embed_texts nrm enc dec data_dir fs c1 = Raise e s1 \<and>
    update_embeddings cfg2 embed_texts2 nrm2 enc dec data_dir (files s1) c2 = Ok s2 \<and>
    distinct (map item_key (corpus_items enc dec data_dir)) \<and>
    (\<forall>md. metadata_file fs = Some md \<longrightarrow> distinct (map key_of md)) \<longrightarrow>
      item_key ` set (corpus_items enc dec data_dir) \<subseteq> set (map key_of (metadata s2)) \<and>
      distinct (map key_of (metadata s2)) \<and>
      (\<exists>ix md K n. initialize_index (files s1) = Inr (ix, md, K, n) \<and>
         metadata s2 = md @ new_entries K n (corpus_items enc dec data_dir)))"
proof (intro conjI impI)
  assume "chunks \<noteq> [] \<and> embed_sub_batches embed_texts (embed_calls s) chunks [] = (Inl e, c)"
  then show "process_chunk_batch embed_texts nrm chunks entries s = Raise e (s\<lparr>embed_calls := c\<rparr>)"
    by (simp add: embedder_failure_propagates)
next
  assume "stage_chunk cfg embed_texts nrm K tk rcd (idx, chunk) s = Raise e s'"
  from stage_chunk_Raise_frame[OF this]
  show "index s' = index s" "metadata s' = metadata s" "files s' = files s" by simp_all
next
  assume "flush_remaining embed_texts nrm s = Raise e s'"
  from flush_remaining_Raise_frame[OF this]
  show "index s' = index s" "metadata s' = metadata s" "files s' = files s" by simp_all
next
  assume a: "update_embeddings cfg embed_texts nrm enc dec data_dir fs c1 = Raise e s1 \<and>
    update_embeddings cfg2 embed_texts2 nrm2 enc dec data_dir (files s1) c2 = Ok s2 \<and>
    distinct (map item_key (corpus_items enc dec data_dir)) \<and>
    (\<forall>md. metadata_file fs = Some md \<longrightarrow> distinct (map key_of md))"
  then have r1: "update_embeddings cfg embed_texts nrm enc dec data_dir fs c1 = Raise e s1"
    and r2: "update_embeddings cfg2 embed_texts2 nrm2 enc dec data_dir (files s1) c2 = Ok s2"
    and di: "distinct (map item_key (corpus_items enc dec data_dir))"
    and dk: "\<forall>md. metadata_file fs = Some md \<longrightarrow> distinct (map key_of md)"
    by simp_all
  have r: "item_key ` set (corpus_items enc dec data_dir) \<subseteq> set (map key_of (metadata s2)) \<and>
         distinct (map key_of (metadata s2)) \<and>
         (\<exists>ix md K n. initialize_index (files s1) = Inr (ix, md, K, n) \<and>
            metadata s2 = md @ new_entries K n (corpus_items enc dec data_dir))"
    by (rule retry_after_failure[OF r1 r2 di dk])
  from r show "item_key ` set (corpus_items enc dec data_dir) \<subseteq> set (map key_of (metadata s2))"
    by simp
  from r show "distinct (map key_of (metadata s2))" by simp
  from r show "\<exists>ix md K n. initialize_index (files s1) = Inr (ix, md, K, n) \<and>
         metadata s2 = md @ new_entries K n (corpus_items enc dec data_dir)" by simp
qed

theorem embedder_failure_leaves_store_witness:
  "update_embeddings eager_config flaky_embedder (\<lambda>v. v) char_enc char_dec sample_corpus no_files 0 =
     Raise (EmbedderError ''timeout'') sample_interrupted \<and>
   update_embeddings eager_config unit_embedder (\<lambda>v. v) char_enc char_dec sample_corpus
     (files sample_interrupted) 2 =
     Ok (sample_state [sample_entry 0 ''A1'', sample_entry 1 ''A2''] 2 1 3) \<and>
   distinct (map item_key (corpus_items char_enc char_dec sample_corpus)) \<and>
   metadata_file no_files = None \<and>
   item_key ` set (corpus_items char_enc char_dec sample_corpus) \<subseteq>
     set (map key_of (metadata (sample_state [sample_entry 0 ''A1'', sample_entry 1 ''A2''] 2 1 3))) \<and>
   distinct (map key_of (metadata (sample_state [sample_entry 0 ''A1'', sample_entry 1 ''A2''] 2 1 3)))"
proof -
  have d: "\<forall>md. metadata_file no_files = Some md \<longrightarrow> distinct (map key_of md)"
    by (simp add: no_files_def)
  from embedder_failure_leaves_store
         [of _ flaky_embedder _ "EmbedderError ''timeout''" _ _ _ eager_config _ _ _ _ _ _
             char_enc char_dec sample_corpus no_files 0 sample_interrupted
             eager_config unit_embedder "\<lambda>v. v" 2
             "sample_state [sample_entry 0 ''A1'', sample_entry 1 ''A2''] 2 1 3"]
       sample_run_interrupted sample_retry sample_items_distinct d
  show ?thesis by (simp add: no_files_def)
qed



text \<open>
  C10. For an id below 0 or not below the length of the metadata list the loop body of
  \<open>retrieve\<close> returns without a lookup; for any other id the lookup returns the entry
  at that position; so a search result is handled as its in-range ids alone would be.
\<close>

theorem retrieve_metadata_lookup_guarded:
  "(vid < 0 \<or> int (length md) \<le> vid \<longrightarrow>
      retrieve_hit enc dec data_dir md (sc, vid) st = Ok st) \<and>
   (0 \<le> vid \<and> vid < int (length md) \<longrightarrow>
      py_index md vid = Inr (md ! nat vid) \<and>
      retrieve_hit enc dec data_dir md (sc, vid) st =
        rehydrate_hit enc dec data_dir (md ! nat vid) sc st) \<and>
   for_each (retrieve_hit enc dec data_dir md) results st =
     for_each (retrieve_hit enc dec data_dir md)
       (filter (\<lambda>r. 0 \<le> snd r \<and> snd r < int (length md)) results) st"
  using retrieve_hit_out_of_range[of vid md enc dec data_dir sc st]
    retrieve_hit_in_range[of vid md enc dec data_dir sc st]
    py_index_in_range[of vid md]
    retrieve_hits_filter[of enc dec data_dir md results st]
  by blast

theorem retrieve_metadata_lookup_guarded_witness:
  "((1::int) < 0 \<or> int (length [sample_entry 0 ''A1'']) \<le> 1) \<and>
   retrieve_hit char_enc char_dec sample_corpus [sample_entry 0 ''A1''] (1 / 2, 1)
     \<lparr>hits = [], warnings = []\<rparr> = Ok \<lparr>hits = [], warnings = []\<rparr> \<and>
   ((0::int) \<le> 0 \<and> (0::int) < int (length [sample_entry 0 ''A1''])) \<and>
   py_index [sample_entry 0 ''A1''] 0 = Inr (sample_entry 0 ''A1'') \<and>
   for_each (retrieve_hit char_enc char_dec sample_corpus [sample_entry 0 ''A1''])
     [(1, 1), (1 / 2, 0), (0, - 1)] \<lparr>hits = [], warnings = []\<rparr> =
   for_each (retrieve_hit char_enc char_dec sample_corpus [sample_entry 0 ''A1''])
     [(1 / 2, 0)] \<lparr>hits = [], warnings = []\<rparr>"
proof -
  have a: "(1::int) < 0 \<or> int (length [sample_entry 0 ''A1'']) \<le> 1" by simp
  have b: "(0::int) \<le> 0 \<and> (0::int) < int (length [sample_entry 0 ''A1''])" by simp
  from retrieve_metadata_lookup_guarded
         [of 1 "[sample_entry 0 ''A1'']" char_enc char_dec sample_corpus "1 / 2"
             "\<lparr>hits = [], warnings = []\<rparr>" "[(1, 1), (1 / 2, 0), (0, - 1)]"] a
  have c: "retrieve_hit char_enc char_dec sample_corpus [sample_entry 0 ''A1''] (1 / 2, 1)
     \<lparr>hits = [], warnings = []\<rparr> = Ok \<lparr>hits = [], warnings = []\<rparr>"
    and d: "for_each (retrieve_hit char_enc char_dec sample_corpus [sample_entry 0 ''A1''])
     [(1, 1), (1 / 2, 0), (0, - 1)] \<lparr>hits = [], warnings = []\<rparr> =
   for_each (retrieve_hit char_enc char_dec sample_corpus [sample_entry 0 ''A1''])
     [(1 / 2, 0)] \<lparr>hits = [], warnings = []\<rparr>"
    by simp_all
  from retrieve_metadata_lookup_guarded
         [of 0 "[sample_entry 0 ''A1'']" char_enc char_dec sample_corpus "1 / 2"
             "\<lparr>hits = [], warnings = []\<rparr>" "[]"] b
  have e: "py_index [sample_entry 0 ''A1''] 0 = Inr (sample_entry 0 ''A1'')" by simp
  from a b c d e show ?thesis by blast
qed

end
